theory Spec2Isabelle
  imports Complex_Main "HOL-Library.Log_Nat"
begin

section \<open>The video annotation pipeline of \<^verbatim>\<open>examples/yolov8/cpp/video.cc\<close>\<close>

text \<open>
  The program is one function, \<^verbatim>\<open>main\<close>. It is embedded here as a function from what
  the outside world hands to the program (command line, model initialisation result, capture
  and writer state, the frames of the stream and, for each frame, what the detector returns)
  to the list of statements \<^verbatim>\<open>main\<close> executes, in execution order, and the value it returns.

  C++ \<^verbatim>\<open>int\<close> values are modelled as \<^typ>\<open>int\<close>; the only integer arithmetic of the program
  is \<^verbatim>\<open>frame.cols - 1\<close>, \<^verbatim>\<open>frame.rows - 1\<close>, \<^verbatim>\<open>y1 - 10\<close> on small non-negative values and
  \<^verbatim>\<open>frame_count++\<close>, whose overflow is written out. C++ \<^verbatim>\<open>float\<close> values are modelled by
  the rational number they denote, and every \<^verbatim>\<open>float\<close> operation rounds its exact result
  to binary32.
\<close>

subsection \<open>binary32 arithmetic\<close>

text \<open>
  Round to nearest, ties to even, on integers: the rounding of a significand.
\<close>

definition round_half_even :: "rat \<Rightarrow> int" where
  "round_half_even q =
     (let f = \<lfloor>q\<rfloor>; r = q - of_int f
      in if r < 1 / 2 then f else if 1 / 2 < r then f + 1 else if even f then f else f + 1)"

text \<open>
  \<open>ilog2 x\<close> is the binary exponent of a positive \<open>x\<close>: \<open>2 powi ilog2 x \<le> x < 2 powi (ilog2 x + 1)\<close>.
  It is computed from the bit lengths of numerator and denominator.
\<close>

definition ilog2 :: "rat \<Rightarrow> int" where
  "ilog2 x = (case quotient_of x of (a, b) \<Rightarrow>
     (let d = bitlen a - bitlen b in if 2 powi d \<le> x then d else d - 1))"

text \<open>
  The unit in the last place of a binary32 number with the magnitude of \<open>x\<close>: the
  significand has 24 bits.
\<close>

definition ulp32 :: "rat \<Rightarrow> rat" where
  "ulp32 x = 2 powi (ilog2 \<bar>x\<bar> - 23)"

text \<open>
  \<open>rnd32 x\<close> is the binary32 number nearest to \<open>x\<close> (IEEE 754 round-to-nearest-even, the
  rounding every \<^verbatim>\<open>float\<close> operation of the program performs). The exponent range of
  binary32 is not modelled: the values that occur, conversions of \<^verbatim>\<open>int\<close> values and
  their quotients and products, have magnitudes between \<open>2 powi (-31)\<close> and \<open>2 powi 62\<close>, far
  inside the normal range.
\<close>

definition rnd32 :: "rat \<Rightarrow> rat" where
  "rnd32 x = (if x = 0 then 0
     else sgn x * of_int (round_half_even (\<bar>x\<bar> / ulp32 x)) * ulp32 x)"

text \<open>
  \<^verbatim>\<open>(float)n\<close> for an \<^verbatim>\<open>int\<close> n, also the implicit conversion of an \<^verbatim>\<open>int\<close> operand of a
  \<^verbatim>\<open>float\<close> operation. An \<^verbatim>\<open>int\<close> of more than 24 bits is rounded, to nearest as the
  hardware does.
\<close>

definition i2f :: "int \<Rightarrow> rat" where
  "i2f n = rnd32 (of_int n)"

text \<open>\<^verbatim>\<open>a * b\<close> on \<^verbatim>\<open>float\<close>.\<close>

definition fmul :: "rat \<Rightarrow> rat \<Rightarrow> rat" where
  "fmul a b = rnd32 (a * b)"

text \<open>
  \<^verbatim>\<open>a / b\<close> on \<^verbatim>\<open>float\<close>. With a zero divisor the result is an infinity or a NaN, no
  number: \<open>None\<close>.
\<close>

definition fdiv :: "rat \<Rightarrow> rat \<Rightarrow> rat option" where
  "fdiv a b = (if b = 0 then None else Some (rnd32 (a / b)))"

text \<open>
  \<^verbatim>\<open>(int)x\<close> for a \<^verbatim>\<open>float\<close> x: the fractional part is discarded. When the truncated
  value is not an \<^verbatim>\<open>int\<close> value the behaviour is undefined: \<open>None\<close>.
\<close>

definition trunc :: "rat \<Rightarrow> int" where
  "trunc x = (if 0 \<le> x then \<lfloor>x\<rfloor> else \<lceil>x\<rceil>)"

definition f2i :: "rat \<Rightarrow> int option" where
  "f2i x = (let t = trunc x in if - (2 ^ 31) \<le> t \<and> t < 2 ^ 31 then Some t else None)"

subsection \<open>Detections (\<^verbatim>\<open>postprocess.h\<close>, as \<^verbatim>\<open>main\<close> uses them)\<close>

text \<open>
  \<^verbatim>\<open>image_rect_t\<close> and \<^verbatim>\<open>object_detect_result\<close>: \<^verbatim>\<open>main\<close> prints the four edges and the
  class id with \<^verbatim>\<open>%d\<close> and the confidence \<^verbatim>\<open>prop\<close> with \<^verbatim>\<open>%.3f\<close>. The fields \<^verbatim>\<open>top\<close> and
  \<^verbatim>\<open>prop\<close> carry a prime, their names being taken in HOL. A detection list
  (\<^verbatim>\<open>object_detect_result_list\<close>: \<^verbatim>\<open>count\<close> and the first \<^verbatim>\<open>count\<close> entries of \<^verbatim>\<open>results\<close>)
  is a list.
\<close>

record image_rect_t =
  left :: int
  top' :: int
  right :: int
  bottom :: int

record object_detect_result =
  box :: image_rect_t
  prop' :: rat
  cls_id :: int

subsection \<open>Mapping a box to frame coordinates (lines 119 to 134)\<close>

text \<open>Line 119, 120: \<^verbatim>\<open>(float)frame.cols / app_ctx.model_width\<close>.\<close>

definition frame_scale :: "int \<Rightarrow> int \<Rightarrow> rat option" where
  "frame_scale frame_dim model_dim = fdiv (i2f frame_dim) (i2f model_dim)"

text \<open>
  Lines 126 to 129: \<^verbatim>\<open>(int)(det->box.left * scale_x)\<close>. A scale that is no number makes
  the product an infinity or a NaN, whose conversion is undefined.
\<close>

definition scale_edge :: "int \<Rightarrow> rat option \<Rightarrow> int option" where
  "scale_edge e scale = (case scale of None \<Rightarrow> None | Some s \<Rightarrow> f2i (fmul (i2f e) s))"

text \<open>Lines 131 to 134: \<^verbatim>\<open>std::max(0, std::min(x1, frame.cols - 1))\<close>.\<close>

definition clamp_edge :: "int \<Rightarrow> int \<Rightarrow> int" where
  "clamp_edge x frame_dim = max 0 (min x (frame_dim - 1))"

definition clamp_box :: "int \<Rightarrow> int \<Rightarrow> int \<times> int \<times> int \<times> int \<Rightarrow> int \<times> int \<times> int \<times> int" where
  "clamp_box cols rows b = (case b of (x1, y1, x2, y2) \<Rightarrow>
     (clamp_edge x1 cols, clamp_edge y1 rows, clamp_edge x2 cols, clamp_edge y2 rows))"

text \<open>Lines 126 to 129, the four conversions in program order.\<close>

definition scale_box :: "rat option \<Rightarrow> rat option \<Rightarrow> image_rect_t \<Rightarrow> (int \<times> int \<times> int \<times> int) option" where
  "scale_box scale_x scale_y b =
     (case scale_edge (left b) scale_x of None \<Rightarrow> None | Some x1 \<Rightarrow>
      case scale_edge (top' b) scale_y of None \<Rightarrow> None | Some y1 \<Rightarrow>
      case scale_edge (right b) scale_x of None \<Rightarrow> None | Some x2 \<Rightarrow>
      case scale_edge (bottom b) scale_y of None \<Rightarrow> None | Some y2 \<Rightarrow>
        Some (x1, y1, x2, y2))"

definition map_box :: "rat option \<Rightarrow> rat option \<Rightarrow> int \<Rightarrow> int \<Rightarrow> image_rect_t \<Rightarrow> (int \<times> int \<times> int \<times> int) option" where
  "map_box scale_x scale_y cols rows b =
     (case scale_box scale_x scale_y b of None \<Rightarrow> None
      | Some s \<Rightarrow> Some (clamp_box cols rows s))"

subsection \<open>\<^verbatim>\<open>printf\<close> conversions\<close>

text \<open>\<^verbatim>\<open>%d\<close> and \<^verbatim>\<open>%lld\<close>: decimal digits, a minus sign for a negative number.\<close>

fun digits :: "nat \<Rightarrow> string" where
  "digits n = (if n < 10 then [''0123456789'' ! n]
               else digits (n div 10) @ [''0123456789'' ! (n mod 10)])"

definition fmt_d :: "int \<Rightarrow> string" where
  "fmt_d i = (if i < 0 then ''-'' @ digits (nat (- i)) else digits (nat i))"

text \<open>
  \<^verbatim>\<open>%.pf\<close> for a finite value: the exact value is rounded to \<open>p\<close> decimals, ties to
  even, and printed with exactly \<open>p\<close> digits after the point.
\<close>

definition fmt_f :: "nat \<Rightarrow> rat \<Rightarrow> string" where
  "fmt_f p x =
     (let m = nat (round_half_even (\<bar>x\<bar> * 10 ^ p));
          frac = digits (m mod 10 ^ p)
      in (if x < 0 then ''-'' else []) @ digits (m div 10 ^ p) @ ''.''
         @ replicate (p - length frac) CHR ''0'' @ frac)"

subsection \<open>What the program receives and what it does\<close>

text \<open>
  One element of the stream: the frame \<^verbatim>\<open>cap >> frame\<close> delivers (its \<^verbatim>\<open>cols\<close> and
  \<^verbatim>\<open>rows\<close>), what \<^verbatim>\<open>inference_yolov8_model\<close> returns for it (\<^verbatim>\<open>ret\<close> and the filled
  \<^verbatim>\<open>od_results\<close>), and how the frame rate measured with the wall clock in this iteration
  prints under \<^verbatim>\<open>%.1f\<close>.
\<close>

record frame_io =
  cols :: int
  rows :: int
  infer_ret :: int
  od_results :: "object_detect_result list"
  fps_text :: string

text \<open>
  One run: \<^verbatim>\<open>argv\<close> (\<^verbatim>\<open>argc\<close> is its length), the return value of
  \<^verbatim>\<open>init_yolov8_model\<close> and the model input size it leaves in \<^verbatim>\<open>app_ctx\<close>, whether the
  capture and the writer open, the frame size and rate the capture reports (the size after
  \<^verbatim>\<open>static_cast<int>\<close>), and the stream. After the last element of the stream, and at an
  element that is an empty frame, \<^verbatim>\<open>cap >> frame\<close> leaves \<^verbatim>\<open>frame\<close> empty.
\<close>

record env =
  argv :: "string list"
  init_ret :: int
  model_width :: int
  model_height :: int
  cap_opened :: bool
  frame_width :: int
  frame_height :: int
  cap_fps :: rat
  writer_opened :: bool
  stream :: "frame_io list"

text \<open>
  The statements of \<^verbatim>\<open>main\<close> that act on the outside or stand for a stage of the pipeline,
  with the values they are executed with. \<open>Stdout s\<close> is one \<^verbatim>\<open>printf\<close> call that writes \<open>s\<close>;
  \<open>ComputeScale\<close> is lines 119 and 120; \<open>MapBox\<close> is lines 126 to 134 for one detection, with
  the clamped \<^verbatim>\<open>x1, y1, x2, y2\<close>.
\<close>

datatype event =
    Stdout string
  | InitPostProcess
  | DeinitPostProcess
  | InitModel string
  | ReleaseModel
  | CapOpenDevice int
  | CapOpenFile string
  | CapGrab
  | CapRelease
  | WriterOpen rat int int
  | WriterWrite
  | WriterRelease
  | Clone
  | Resize int int
  | CvtColor
  | Inference
  | ComputeScale
  | MapBox int int int int
  | Rectangle int int int int
  | PutText string int int

text \<open>How an iteration of the \<^verbatim>\<open>while\<close> loop ends, and how the loop ends.\<close>

datatype iter_result = Continue | Break | Undefined

datatype loop_exit = EndOfStream | InferenceFailed | UndefinedBehaviour

subsection \<open>The messages\<close>

definition newline :: string where
  "newline = [CHR 0x0A]"

definition usage_lines :: "string \<Rightarrow> event list" where
  "usage_lines prog =
     [Stdout (''Usage: '' @ prog @ '' <rknn_model> <video_source>'' @ newline),
      Stdout (''  video_source: camera id (e.g. 0) or video file path'' @ newline),
      Stdout (''  Output: saved to output.mp4 + print per-frame detections'' @ newline)]"

definition init_failed_line :: "int \<Rightarrow> string" where
  "init_failed_line ret = ''init_yolov8_model failed! ret='' @ fmt_d ret @ newline"

definition open_failed_line :: "string \<Rightarrow> string" where
  "open_failed_line video_source = ''Failed to open video source: '' @ video_source @ newline"

definition writer_warning_line :: string where
  "writer_warning_line = ''Warning: VideoWriter failed to open, will not save video.'' @ newline"

definition saving_line :: "rat \<Rightarrow> int \<Rightarrow> int \<Rightarrow> string" where
  "saving_line fps w h = ''Saving inference result to output.mp4 (FPS: '' @ fmt_f 1 fps
     @ '', Size: '' @ fmt_d w @ ''x'' @ fmt_d h @ '')'' @ newline"

definition end_of_video_line :: "int \<Rightarrow> string" where
  "end_of_video_line frame_count =
     ''End of video. Total processed frames: '' @ fmt_d frame_count @ newline"

definition inference_failed_line :: "int \<Rightarrow> int \<Rightarrow> string" where
  "inference_failed_line frame_count ret =
     ''inference failed on frame '' @ fmt_d frame_count @ ''! ret='' @ fmt_d ret @ newline"

definition frame_header_line :: "int \<Rightarrow> int \<Rightarrow> string" where
  "frame_header_line frame_count count =
     ''Frame '' @ fmt_d frame_count @ '' detections ('' @ fmt_d count @ '' objects):'' @ newline"

definition detection_line :: "(int \<Rightarrow> string) \<Rightarrow> object_detect_result \<Rightarrow> string" where
  "detection_line coco_cls_to_name det =
     ''  '' @ coco_cls_to_name (cls_id det) @ '' @ ('' @ fmt_d (left (box det)) @ '' ''
     @ fmt_d (top' (box det)) @ '' '' @ fmt_d (right (box det)) @ '' ''
     @ fmt_d (bottom (box det)) @ '') '' @ fmt_f 3 (prop' det) @ newline"

definition no_objects_line :: string where
  "no_objects_line = ''  no objects detected'' @ newline"

definition video_saved_line :: string where
  "video_saved_line = ''Video saved successfully: output.mp4'' @ newline"

text \<open>Line 139: \<^verbatim>\<open>"%s %.1f%%"\<close> with \<^verbatim>\<open>det->prop * 100\<close>, a \<^verbatim>\<open>float\<close> product.\<close>

definition label_text :: "(int \<Rightarrow> string) \<Rightarrow> object_detect_result \<Rightarrow> string" where
  "label_text coco_cls_to_name det =
     coco_cls_to_name (cls_id det) @ '' '' @ fmt_f 1 (fmul (prop' det) (i2f 100)) @ ''%''"

text \<open>Line 147: \<^verbatim>\<open>"FPS: %.1f  Frame: %lld"\<close>.\<close>

definition fps_overlay_text :: "string \<Rightarrow> int \<Rightarrow> string" where
  "fps_overlay_text fps frame_count = ''FPS: '' @ fps @ ''  Frame: '' @ fmt_d frame_count"

subsection \<open>The loop body\<close>

text \<open>
  Lines 104 to 115: the report of one frame. \<^verbatim>\<open>od_results.count\<close> is the length of the
  detection list.
\<close>

definition report_frame :: "(int \<Rightarrow> string) \<Rightarrow> int \<Rightarrow> object_detect_result list \<Rightarrow> event list" where
  "report_frame coco_cls_to_name frame_count dets =
     Stdout (frame_header_line frame_count (int (length dets)))
     # map (\<lambda>det. Stdout (detection_line coco_cls_to_name det)) dets
     @ (if int (length dets) = 0 then [Stdout no_objects_line] else [])"

text \<open>
  Lines 123 to 142: for each detection in turn, map the box, draw the rectangle, draw the
  label. The second component is \<open>False\<close> when a conversion to \<^verbatim>\<open>int\<close> is undefined; the
  statements executed before it are kept. The labels are taken to fit the 64 bytes of
  \<^verbatim>\<open>text\<close>.
\<close>

fun draw_detections ::
  "(int \<Rightarrow> string) \<Rightarrow> rat option \<Rightarrow> rat option \<Rightarrow> int \<Rightarrow> int \<Rightarrow> object_detect_result list
     \<Rightarrow> event list \<times> bool" where
  "draw_detections coco_cls_to_name scale_x scale_y fcols frows [] = ([], True)"
| "draw_detections coco_cls_to_name scale_x scale_y fcols frows (det # dets) =
     (case map_box scale_x scale_y fcols frows (box det) of
        None \<Rightarrow> ([], False)
      | Some (x1, y1, x2, y2) \<Rightarrow>
          (case draw_detections coco_cls_to_name scale_x scale_y fcols frows dets of
             (es, ok) \<Rightarrow>
               ([MapBox x1 y1 x2 y2, Rectangle x1 y1 x2 y2,
                 PutText (label_text coco_cls_to_name det) x1 (y1 - 10)] @ es, ok)))"

text \<open>Lines 119 to 142: the scales are computed once, before the loop over the detections.\<close>

definition overlay_frame ::
  "(int \<Rightarrow> string) \<Rightarrow> env \<Rightarrow> frame_io \<Rightarrow> event list \<times> bool" where
  "overlay_frame coco_cls_to_name e f =
     (let scale_x = frame_scale (cols f) (model_width e);
          scale_y = frame_scale (rows f) (model_height e)
      in case draw_detections coco_cls_to_name scale_x scale_y (cols f) (rows f) (od_results f) of
           (es, ok) \<Rightarrow> (ComputeScale # es, ok))"

text \<open>
  Lines 81 to 154, one iteration after a frame has been acquired and \<^verbatim>\<open>frame_count\<close>
  incremented. OpenCV calls are taken not to throw (after a successful initialisation the model
  input size is positive).
\<close>

definition loop_body ::
  "(int \<Rightarrow> string) \<Rightarrow> env \<Rightarrow> int \<Rightarrow> frame_io \<Rightarrow> event list \<times> iter_result" where
  "loop_body coco_cls_to_name e frame_count f =
     (let pre = [Clone, Resize (model_width e) (model_height e), CvtColor, Inference]
      in if infer_ret f \<noteq> 0
         then (pre @ [Stdout (inference_failed_line frame_count (infer_ret f))], Break)
         else
           (let rep = report_frame coco_cls_to_name frame_count (od_results f)
            in case overlay_frame coco_cls_to_name e f of
                 (ov, ok) \<Rightarrow>
                   if \<not> ok then (pre @ rep @ ov, Undefined)
                   else (pre @ rep @ ov
                         @ [PutText (fps_overlay_text (fps_text f) frame_count) 10 40]
                         @ (if writer_opened e then [WriterWrite] else []), Continue)))"

subsection \<open>The loop and \<^verbatim>\<open>main\<close>\<close>

text \<open>\<^verbatim>\<open>frame.empty()\<close>: no pixels.\<close>

definition frame_empty :: "frame_io \<Rightarrow> bool" where
  "frame_empty f = (cols f \<le> 0 \<or> rows f \<le> 0)"

text \<open>
  Lines 70 to 155 from a value of \<^verbatim>\<open>frame_count\<close>: the statements executed, how the loop
  ends and the final \<^verbatim>\<open>frame_count\<close>. Incrementing the largest \<^verbatim>\<open>long long\<close> is undefined.
\<close>

fun stream_loop ::
  "(int \<Rightarrow> string) \<Rightarrow> env \<Rightarrow> int \<Rightarrow> frame_io list \<Rightarrow> event list \<times> loop_exit \<times> int" where
  "stream_loop coco_cls_to_name e frame_count [] =
     ([CapGrab, Stdout (end_of_video_line frame_count)], EndOfStream, frame_count)"
| "stream_loop coco_cls_to_name e frame_count (f # fs) =
     (if frame_empty f
      then ([CapGrab, Stdout (end_of_video_line frame_count)], EndOfStream, frame_count)
      else if frame_count = 2 ^ 63 - 1 then ([CapGrab], UndefinedBehaviour, frame_count)
      else (case loop_body coco_cls_to_name e (frame_count + 1) f of
              (es, Continue) \<Rightarrow>
                (case stream_loop coco_cls_to_name e (frame_count + 1) fs of
                   (tr, r) \<Rightarrow> (CapGrab # es @ tr, r))
            | (es, Break) \<Rightarrow> (CapGrab # es, InferenceFailed, frame_count + 1)
            | (es, Undefined) \<Rightarrow> (CapGrab # es, UndefinedBehaviour, frame_count + 1)))"

text \<open>Lines 68 to 155: \<^verbatim>\<open>frame_count\<close> starts at 0.\<close>

definition run_loop :: "(int \<Rightarrow> string) \<Rightarrow> env \<Rightarrow> event list \<times> loop_exit \<times> int" where
  "run_loop coco_cls_to_name e = stream_loop coco_cls_to_name e 0 (stream e)"

text \<open>Lines 38 to 42: a one-digit source is a camera index, anything else a path.\<close>

definition open_capture :: "string \<Rightarrow> event" where
  "open_capture video_source =
     (case video_source of
        [c] \<Rightarrow> if c \<in> set ''0123456789'' then CapOpenDevice (int (of_char c) - 48)
               else CapOpenFile video_source
      | _ \<Rightarrow> CapOpenFile video_source)"

text \<open>
  \<^verbatim>\<open>main\<close>: the statements executed and the return value; \<open>None\<close> when the run meets
  undefined behaviour. With an empty \<^verbatim>\<open>argv\<close> the usage message would print a null pointer.
\<close>

definition main_model :: "(int \<Rightarrow> string) \<Rightarrow> env \<Rightarrow> event list \<times> int option" where
  "main_model coco_cls_to_name e =
     (case argv e of
        [] \<Rightarrow> ([], None)
      | [prog, model_path, video_source] \<Rightarrow>
          (let t0 = [InitPostProcess, InitModel model_path]
           in if init_ret e \<noteq> 0
              then (t0 @ [Stdout (init_failed_line (init_ret e)), DeinitPostProcess], Some (- 1))
              else
                (let t1 = t0 @ [open_capture video_source]
                 in if \<not> cap_opened e
                    then (t1 @ [Stdout (open_failed_line video_source), ReleaseModel,
                                DeinitPostProcess], Some (- 1))
                    else
                      (let fps_input = (if cap_fps e \<le> 0 then 30 else cap_fps e);
                           t2 = t1 @ [WriterOpen fps_input (frame_width e) (frame_height e),
                                      Stdout (if \<not> writer_opened e then writer_warning_line
                                              else saving_line fps_input (frame_width e)
                                                     (frame_height e))]
                       in case run_loop coco_cls_to_name e of
                            (tr, UndefinedBehaviour, n) \<Rightarrow> (t2 @ tr, None)
                          | (tr, ex, n) \<Rightarrow>
                              (t2 @ tr
                               @ (if writer_opened e
                                  then [WriterRelease, Stdout video_saved_line] else [])
                               @ [ReleaseModel, DeinitPostProcess, CapRelease], Some 0))))
      | prog # _ \<Rightarrow> (usage_lines prog, Some (- 1)))"

subsection \<open>Reading a list of executed statements\<close>

text \<open>What was written to standard output, one entry for each \<^verbatim>\<open>printf\<close> call.\<close>

definition stdout_of :: "event list \<Rightarrow> string list" where
  "stdout_of tr = concat (map (\<lambda>ev. case ev of Stdout s \<Rightarrow> [s] | _ \<Rightarrow> []) tr)"

text \<open>The frames the source delivers before \<^verbatim>\<open>cap >> frame\<close> first leaves an empty frame.\<close>

definition acquired_frames :: "env \<Rightarrow> frame_io list" where
  "acquired_frames e = takeWhile (\<lambda>f. \<not> frame_empty f) (stream e)"

text \<open>
  The frames \<^verbatim>\<open>main\<close> acquires: those the source delivers before the first empty one, up to
  and including the first on which the detector fails.
\<close>

definition grabbed_frames :: "env \<Rightarrow> frame_io list" where
  "grabbed_frames e =
     take (Suc (length (takeWhile (\<lambda>f. infer_ret f = 0) (acquired_frames e))))
       (acquired_frames e)"

text \<open>The boxes the mapping produced and the rectangles drawn, in order.\<close>

definition mapped_boxes :: "event list \<Rightarrow> (int \<times> int \<times> int \<times> int) list" where
  "mapped_boxes tr =
     concat (map (\<lambda>ev. case ev of MapBox x1 y1 x2 y2 \<Rightarrow> [(x1, y1, x2, y2)] | _ \<Rightarrow> []) tr)"

definition drawn_rectangles :: "event list \<Rightarrow> (int \<times> int \<times> int \<times> int) list" where
  "drawn_rectangles tr =
     concat (map (\<lambda>ev. case ev of Rectangle x1 y1 x2 y2 \<Rightarrow> [(x1, y1, x2, y2)] | _ \<Rightarrow> []) tr)"

text \<open>
  The stage of the pipeline a statement of the loop belongs to. Inside an iteration every
  \<^verbatim>\<open>printf\<close> is the Reporter's, but for the message of a failed inference, which is the
  Driver's, as is the copy \<^verbatim>\<open>frame.clone()\<close>.
\<close>

datatype stage =
  FrameSource | Preprocessor | DetectorAdapter | CoordinateMapper | OverlayRenderer | Reporter
  | OutputSink

definition stage_of :: "event \<Rightarrow> stage list" where
  "stage_of ev =
     (case ev of
        CapGrab \<Rightarrow> [FrameSource]
      | Resize w h \<Rightarrow> [Preprocessor]
      | CvtColor \<Rightarrow> [Preprocessor]
      | Inference \<Rightarrow> [DetectorAdapter]
      | ComputeScale \<Rightarrow> [CoordinateMapper]
      | MapBox x1 y1 x2 y2 \<Rightarrow> [CoordinateMapper]
      | Rectangle x1 y1 x2 y2 \<Rightarrow> [OverlayRenderer]
      | PutText s x y \<Rightarrow> [OverlayRenderer]
      | Stdout s \<Rightarrow> (if take 17 s = ''inference failed '' then [] else [Reporter])
      | WriterWrite \<Rightarrow> [OutputSink]
      | _ \<Rightarrow> [])"

definition stages :: "event list \<Rightarrow> stage list" where
  "stages tr = concat (map stage_of tr)"

subsection \<open>The specification's wording, for comparison\<close>

text \<open>
  The data flow of an iteration as the specification words it: Frame Source, Preprocessor,
  Detector Adapter, Coordinate Mapper, then Overlay Renderer and Reporter, then Output Sink.
\<close>

fun spec_stage_rank :: "stage \<Rightarrow> nat" where
  "spec_stage_rank FrameSource = 0"
| "spec_stage_rank Preprocessor = 1"
| "spec_stage_rank DetectorAdapter = 2"
| "spec_stage_rank CoordinateMapper = 3"
| "spec_stage_rank OverlayRenderer = 4"
| "spec_stage_rank Reporter = 4"
| "spec_stage_rank OutputSink = 5"






subsection \<open>Inputs on which every conversion is defined\<close>

text \<open>
  A detection box inside the model input, and a frame of at most \<open>2 ^ 30\<close> pixels in each
  direction all of whose detection boxes are inside the model input.
\<close>

definition box_in_model_input :: "env \<Rightarrow> image_rect_t \<Rightarrow> bool" where
  "box_in_model_input e b =
     (0 \<le> left b \<and> left b \<le> model_width e \<and> 0 \<le> right b \<and> right b \<le> model_width e
      \<and> 0 \<le> top' b \<and> top' b \<le> model_height e \<and> 0 \<le> bottom b \<and> bottom b \<le> model_height e)"

definition frame_regular :: "env \<Rightarrow> frame_io \<Rightarrow> bool" where
  "frame_regular e f =
     (cols f \<le> 2 ^ 30 \<and> rows f \<le> 2 ^ 30
      \<and> list_all (\<lambda>d. box_in_model_input e (box d)) (od_results f))"

text \<open>
  The detections of a frame whose boxes are mapped and drawn: all of them, unless a
  conversion is undefined.
\<close>

definition mapped_detections :: "env \<Rightarrow> frame_io \<Rightarrow> object_detect_result list" where
  "mapped_detections e f =
     takeWhile (\<lambda>d. map_box (frame_scale (cols f) (model_width e))
                       (frame_scale (rows f) (model_height e)) (cols f) (rows f) (box d) \<noteq> None)
       (od_results f)"




subsection \<open>Example inputs\<close>

definition example_names :: "int \<Rightarrow> string" where
  "example_names c = (if c = 0 then ''person'' else ''car'')"

definition example_box :: image_rect_t where
  "example_box = \<lparr>left = 100, top' = 100, right = 200, bottom = 200\<rparr>"

definition example_detection :: object_detect_result where
  "example_detection = \<lparr>box = example_box, prop' = 7 / 8, cls_id = 0\<rparr>"

definition example_frame :: frame_io where
  "example_frame = \<lparr>cols = 1920, rows = 1080, infer_ret = 0, od_results = [example_detection],
     fps_text = ''25.0''\<rparr>"

definition example_env :: env where
  "example_env = \<lparr>argv = [''video'', ''yolov8.rknn'', ''in.mp4''], init_ret = 0,
     model_width = 640, model_height = 640, cap_opened = True, frame_width = 1920,
     frame_height = 1080, cap_fps = 25, writer_opened = True,
     stream = [example_frame, example_frame\<lparr>od_results := []\<rparr>]\<rparr>"

text \<open>A run whose detector fails on the first of two frames.\<close>

definition example_failing_env :: env where
  "example_failing_env =
     example_env\<lparr>stream := [example_frame\<lparr>infer_ret := - 1\<rparr>, example_frame]\<rparr>"

text \<open>The example run with a writer that does not open.\<close>

definition example_no_writer_env :: env where
  "example_no_writer_env = example_env\<lparr>writer_opened := False\<rparr>"

text \<open>A frame with two detections.\<close>

definition example_second_detection :: object_detect_result where
  "example_second_detection =
     \<lparr>box = \<lparr>left = 320, top' = 320, right = 640, bottom = 640\<rparr>, prop' = 1 / 2, cls_id = 2\<rparr>"

definition example_two_detections_frame :: frame_io where
  "example_two_detections_frame =
     example_frame\<lparr>od_results := [example_detection, example_second_detection]\<rparr>"


definition example_wide_box :: image_rect_t where
  "example_wide_box = \<lparr>left = 10, top' = 0, right = 2000000000, bottom = 10\<rparr>"

section \<open>Properties\<close>

subsection \<open>Rounding to binary32\<close>

lemma bitlen_powi_bounds:
  assumes "0 < a"
  shows "(2::rat) powi (bitlen a - 1) \<le> of_int a" and "of_int a < (2::rat) powi (bitlen a)"
proof -
  have b1: "1 \<le> bitlen a" using assms by (simp add: bitlen_alt_def)
  have "2 ^ nat (bitlen a - 1) \<le> a" "a < 2 ^ nat (bitlen a)"
    using bitlen_bounds [OF assms] by simp_all
  then have "(of_int (2 ^ nat (bitlen a - 1)) :: rat) \<le> of_int a"
    and "(of_int a :: rat) < of_int (2 ^ nat (bitlen a))"
    by (simp_all only: of_int_le_iff of_int_less_iff)
  then show "(2::rat) powi (bitlen a - 1) \<le> of_int a" and "of_int a < (2::rat) powi (bitlen a)"
    using b1 by (simp_all add: power_int_def)
qed

lemma ilog2_bounds:
  assumes "0 < x"
  shows "2 powi (ilog2 x) \<le> x" and "x < 2 powi (ilog2 x + 1)"
proof -
  obtain a b where q: "quotient_of x = (a, b)" by (cases "quotient_of x")
  have bpos: "0 < b" using q by (rule quotient_of_denom_pos)
  have xeq: "x = of_int a / of_int b" using q by (rule quotient_of_div)
  have apos: "0 < a" using assms bpos xeq by (simp add: zero_less_divide_iff)
  define d where "d = bitlen a - bitlen b"
  have B: "(0::rat) < of_int b" using bpos by simp
  have up: "x < 2 powi (d + 1)"
  proof -
    have "of_int a < (2::rat) powi (bitlen a)" using apos by (rule bitlen_powi_bounds)
    also have "\<dots> = 2 powi (d + 1) * 2 powi (bitlen b - 1)"
      by (simp add: d_def flip: power_int_add)
    also have "\<dots> \<le> 2 powi (d + 1) * of_int b"
      using bitlen_powi_bounds(1) [OF bpos] by (intro mult_left_mono) simp_all
    finally show ?thesis using B by (simp add: xeq pos_divide_less_eq)
  qed
  have lo: "2 powi (d - 1) \<le> x"
  proof -
    have "(2::rat) powi (d - 1) * of_int b \<le> 2 powi (d - 1) * 2 powi (bitlen b)"
      using bitlen_powi_bounds(2) [OF bpos] by (intro mult_left_mono) simp_all
    also have "\<dots> = 2 powi (bitlen a - 1)"
      by (simp add: d_def flip: power_int_add)
    also have "\<dots> \<le> of_int a" using apos by (rule bitlen_powi_bounds)
    finally show ?thesis using B by (simp add: xeq pos_le_divide_eq)
  qed
  have il: "ilog2 x = (if 2 powi d \<le> x then d else d - 1)"
    by (simp add: ilog2_def q d_def Let_def)
  show "2 powi (ilog2 x) \<le> x" using lo by (simp add: il)
  show "x < 2 powi (ilog2 x + 1)" using up by (auto simp add: il not_le)
qed

lemma ilog2_eqI:
  assumes "2 powi e \<le> x" and "x < 2 powi (e + 1)"
  shows "ilog2 x = e"
proof -
  have pos: "0 < x" using assms(1) by (rule less_le_trans [rotated]) simp
  have "(2::rat) powi e < 2 powi (ilog2 x + 1)"
    using assms(1) ilog2_bounds(2) [OF pos] by simp
  then have a: "e < ilog2 x + 1"
    by (metis not_le power_int_increasing one_le_numeral)
  have "(2::rat) powi (ilog2 x) < 2 powi (e + 1)"
    using assms(2) ilog2_bounds(1) [OF pos] by simp
  then have "ilog2 x < e + 1"
    by (metis not_le power_int_increasing one_le_numeral)
  with a show ?thesis by simp
qed

lemma ilog2_mono:
  assumes "0 < x" and "x \<le> y"
  shows "ilog2 x \<le> ilog2 y"
proof -
  have "0 < y" using assms by simp
  have "(2::rat) powi (ilog2 x) < 2 powi (ilog2 y + 1)"
    using ilog2_bounds(1) [OF assms(1)] ilog2_bounds(2) [OF \<open>0 < y\<close>] assms(2) by simp
  then have "ilog2 x < ilog2 y + 1"
    by (metis not_le power_int_increasing one_le_numeral)
  then show ?thesis by simp
qed

lemma rhe_cases: "round_half_even q = \<lfloor>q\<rfloor> \<or> round_half_even q = \<lfloor>q\<rfloor> + 1"
  by (simp add: round_half_even_def Let_def)

lemma rhe_err: "\<bar>of_int (round_half_even q) - q\<bar> \<le> 1 / 2"
proof -
  have "of_int \<lfloor>q\<rfloor> \<le> q" "q < of_int \<lfloor>q\<rfloor> + 1" by linarith+
  then show ?thesis
    by (auto simp add: round_half_even_def Let_def abs_le_iff)
qed

lemma rhe_of_int [simp]: "round_half_even (of_int n) = n"
  by (simp add: round_half_even_def)

lemma rhe_mono:
  assumes "q \<le> q'"
  shows "round_half_even q \<le> round_half_even q'"
proof (cases "\<lfloor>q\<rfloor> = \<lfloor>q'\<rfloor>")
  case True
  with assms show ?thesis
    by (auto simp add: round_half_even_def Let_def)
next
  case False
  with assms have "\<lfloor>q\<rfloor> < \<lfloor>q'\<rfloor>"
    using floor_mono [OF assms] by simp
  moreover have "round_half_even q \<le> \<lfloor>q\<rfloor> + 1" using rhe_cases [of q] by auto
  moreover have "\<lfloor>q'\<rfloor> \<le> round_half_even q'" using rhe_cases [of q'] by auto
  ultimately show ?thesis by simp
qed

lemma rhe_ge: "of_int n \<le> q \<Longrightarrow> n \<le> round_half_even q"
  using rhe_mono [of "of_int n" q] by simp

lemma rhe_le: "q \<le> of_int n \<Longrightarrow> round_half_even q \<le> n"
  using rhe_mono [of q "of_int n"] by simp

lemma ulp32_pos [simp]: "0 < ulp32 x"
  by (simp add: ulp32_def)

lemma ulp32_nz [simp]: "ulp32 x \<noteq> 0"
  using ulp32_pos [of x] by (simp del: ulp32_pos)

lemma ulp32_not_neg [simp]: "\<not> ulp32 x < 0"
  using ulp32_pos [of x] by (simp del: ulp32_pos)

lemma ulp32_nonneg [simp]: "0 \<le> ulp32 x"
  using ulp32_pos [of x] by (simp del: ulp32_pos)

lemma rnd32_pos_eq: "0 < x \<Longrightarrow> rnd32 x = of_int (round_half_even (x / ulp32 x)) * ulp32 x"
  by (simp add: rnd32_def)

lemma ulp32_minus [simp]: "ulp32 (- x) = ulp32 x"
  by (simp add: ulp32_def)

lemma rnd32_minus: "rnd32 (- x) = - rnd32 x"
  by (simp add: rnd32_def sgn_minus)

lemma rnd32_0 [simp]: "rnd32 0 = 0"
  by (simp add: rnd32_def)

lemma scaled_bounds:
  assumes "0 < x"
  shows "2 ^ 23 \<le> x / ulp32 x" and "x / ulp32 x < 2 ^ 24"
proof -
  have x: "\<bar>x\<bar> = x" using assms by simp
  have u: "2 powi (ilog2 x) = 2 ^ 23 * ulp32 x"
    by (simp add: ulp32_def x power_int_diff)
  have u2: "2 powi (ilog2 x + 1) = 2 ^ 24 * ulp32 x"
    by (simp add: ulp32_def x power_int_diff power_int_add)
  show "2 ^ 23 \<le> x / ulp32 x"
    using ilog2_bounds(1) [OF assms] by (simp add: u pos_le_divide_eq)
  show "x / ulp32 x < 2 ^ 24"
    using ilog2_bounds(2) [OF assms] by (simp add: u2 pos_divide_less_eq)
qed

lemma rnd32_pos_bounds:
  assumes "0 < x"
  shows "2 ^ 23 * ulp32 x \<le> rnd32 x" and "rnd32 x \<le> 2 ^ 24 * ulp32 x"
proof -
  have "(2 ^ 23 :: int) \<le> round_half_even (x / ulp32 x)"
    using scaled_bounds(1) [OF assms] by (intro rhe_ge) simp
  then have "(of_int (2 ^ 23) :: rat) \<le> of_int (round_half_even (x / ulp32 x))"
    by (simp only: of_int_le_iff)
  then show "2 ^ 23 * ulp32 x \<le> rnd32 x"
    by (simp add: rnd32_pos_eq [OF assms])
  have "round_half_even (x / ulp32 x) \<le> (2 ^ 24 :: int)"
    using scaled_bounds(2) [OF assms] by (intro rhe_le) simp
  then have "(of_int (round_half_even (x / ulp32 x)) :: rat) \<le> of_int (2 ^ 24)"
    by (simp only: of_int_le_iff)
  then show "rnd32 x \<le> 2 ^ 24 * ulp32 x"
    by (simp add: rnd32_pos_eq [OF assms])
qed

lemma rnd32_pos: "0 < x \<Longrightarrow> 0 < rnd32 x"
  using rnd32_pos_bounds(1) [of x] ulp32_pos [of x]
  by (meson less_le_trans mult_pos_pos zero_less_numeral zero_less_power)

lemma rnd32_mono_pos:
  assumes "0 < x" and "x \<le> y"
  shows "rnd32 x \<le> rnd32 y"
proof -
  have ypos: "0 < y" using assms by simp
  have le: "ilog2 x \<le> ilog2 y" using assms by (rule ilog2_mono)
  show ?thesis
  proof (cases "ilog2 x = ilog2 y")
    case True
    then have u: "ulp32 y = ulp32 x" using assms ypos by (simp add: ulp32_def)
    have "x / ulp32 x \<le> y / ulp32 x"
      using assms(2) ulp32_pos [of x] by (simp add: divide_le_cancel)
    then have "round_half_even (x / ulp32 x) \<le> round_half_even (y / ulp32 x)"
      by (rule rhe_mono)
    then have "(of_int (round_half_even (x / ulp32 x)) :: rat) \<le> of_int (round_half_even (y / ulp32 x))"
      by (simp only: of_int_le_iff)
    then show ?thesis
      by (simp add: rnd32_pos_eq [OF assms(1)] rnd32_pos_eq [OF ypos] u)
  next
    case False
    with le have "ilog2 x + 1 \<le> ilog2 y" by simp
    then have "(2::rat) powi (ilog2 x + 1 - 23) \<le> 2 powi (ilog2 y - 23)"
      by (intro power_int_increasing) simp_all
    then have "2 * ulp32 x \<le> ulp32 y"
      using assms ypos by (simp add: ulp32_def power_int_diff power_int_add)
    then have "2 ^ 24 * ulp32 x \<le> 2 ^ 23 * ulp32 y" by simp
    with rnd32_pos_bounds(2) [OF assms(1)] rnd32_pos_bounds(1) [OF ypos]
    show ?thesis by linarith
  qed
qed

lemma rnd32_mono:
  assumes "x \<le> y"
  shows "rnd32 x \<le> rnd32 y"
proof -
  consider "0 < x" | "x \<le> 0" "0 < y" | "x < 0" "y = 0" | "x = 0" "y = 0" | "y < 0"
    using assms by linarith
  then show ?thesis
  proof cases
    case 1
    then show ?thesis using assms by (rule rnd32_mono_pos)
  next
    case 2
    have "rnd32 x \<le> 0"
    proof (cases "x = 0")
      case True then show ?thesis by simp
    next
      case False
      with 2 have "0 < - x" by simp
      then have "0 < rnd32 (- x)" by (rule rnd32_pos)
      then show ?thesis by (simp add: rnd32_minus)
    qed
    moreover have "0 < rnd32 y" using 2 by (intro rnd32_pos)
    ultimately show ?thesis by simp
  next
    case 3
    then have "0 < rnd32 (- x)" by (intro rnd32_pos) simp
    then show ?thesis using 3 by (simp add: rnd32_minus)
  next
    case 4
    then show ?thesis by simp
  next
    case 5
    then have "0 < - y" "- y \<le> - x" using assms by simp_all
    then have "rnd32 (- y) \<le> rnd32 (- x)" by (rule rnd32_mono_pos)
    then show ?thesis by (simp add: rnd32_minus)
  qed
qed

lemma rnd32_err_pos:
  assumes "0 < x"
  shows "\<bar>rnd32 x - x\<bar> \<le> x / 2 ^ 24"
proof -
  let ?u = "ulp32 x"
  let ?m = "round_half_even (x / ?u)"
  have "rnd32 x - x = (of_int ?m - x / ?u) * ?u"
    using ulp32_pos [of x] by (simp add: rnd32_pos_eq [OF assms] left_diff_distrib)
  then have "\<bar>rnd32 x - x\<bar> = \<bar>of_int ?m - x / ?u\<bar> * \<bar>?u\<bar>"
    by (simp only: abs_mult)
  also have "\<dots> = \<bar>of_int ?m - x / ?u\<bar> * ?u"
    using ulp32_pos [of x] by (simp only: abs_of_pos)
  also have "\<dots> \<le> (1 / 2) * ?u"
    using rhe_err [of "x / ?u"] by (intro mult_right_mono) simp_all
  also have "\<dots> \<le> x / 2 ^ 24"
    using scaled_bounds(1) [OF assms] by (simp add: pos_le_divide_eq)
  finally show ?thesis .
qed

lemma rnd32_err: "\<bar>rnd32 x - x\<bar> \<le> \<bar>x\<bar> / 2 ^ 24"
proof -
  consider "0 < x" | "x = 0" | "x < 0" by linarith
  then show ?thesis
  proof cases
    case 1
    then show ?thesis using rnd32_err_pos [of x] by simp
  next
    case 2
    then show ?thesis by simp
  next
    case 3
    then have "\<bar>rnd32 (- x) - (- x)\<bar> \<le> (- x) / 2 ^ 24" by (intro rnd32_err_pos) simp
    then show ?thesis using 3 by (simp add: rnd32_minus abs_minus_commute)
  qed
qed

lemma rnd32_exact:
  assumes "0 < x" and "x / ulp32 x = of_int m"
  shows "rnd32 x = x"
proof -
  have "rnd32 x = of_int m * ulp32 x"
    by (simp add: rnd32_pos_eq [OF assms(1)] assms(2))
  also have "\<dots> = x" by (simp flip: assms(2))
  finally show ?thesis .
qed

lemma rnd32_of_int_pos:
  assumes "0 < n" and "n \<le> 2 ^ 24"
  shows "rnd32 (of_int n) = of_int n"
proof -
  let ?x = "of_int n :: rat"
  have xpos: "0 < ?x" using assms by simp
  have ax: "\<bar>?x\<bar> = ?x" using xpos by simp
  have xle: "?x \<le> 2 powi 24"
  proof -
    have "(of_int n :: rat) \<le> of_int (2 ^ 24)" using assms(2) by (simp only: of_int_le_iff)
    then show ?thesis by simp
  qed
  have "(2::rat) powi (ilog2 ?x) \<le> ?x" using xpos by (rule ilog2_bounds)
  also note xle
  finally have le24: "ilog2 ?x \<le> 24"
    by (metis not_le power_int_strict_increasing one_less_numeral_iff semiring_norm(76))
  show ?thesis
  proof (cases "ilog2 ?x = 24")
    case True
    then have "(2::rat) powi 24 \<le> ?x" using ilog2_bounds(1) [OF xpos] by simp
    with xle have x: "?x = 2 ^ 24" by simp
    have "ulp32 ?x = 2" using True by (simp add: ulp32_def ax)
    then have "?x / ulp32 ?x = of_int (2 ^ 23)" by (simp add: x)
    with xpos show ?thesis by (rule rnd32_exact)
  next
    case False
    with le24 have "0 \<le> 23 - ilog2 ?x" by simp
    then obtain k :: nat where k: "23 - ilog2 ?x = int k"
      using nonneg_int_cases by blast
    have "ilog2 ?x - 23 = - int k" using k by simp
    then have "ulp32 ?x = 1 / 2 ^ k"
      by (simp add: ulp32_def ax power_int_minus_divide del: of_int_minus)
    then have "?x / ulp32 ?x = of_int (n * 2 ^ k)" by simp
    with xpos show ?thesis by (rule rnd32_exact)
  qed
qed

lemma rnd32_of_int:
  assumes "\<bar>n\<bar> \<le> 2 ^ 24"
  shows "rnd32 (of_int n) = of_int n"
proof -
  consider "0 < n" | "n = 0" | "n < 0" by linarith
  then show ?thesis
  proof cases
    case 1
    then show ?thesis using assms by (intro rnd32_of_int_pos) simp_all
  next
    case 2
    then show ?thesis by simp
  next
    case 3
    then have "rnd32 (of_int (- n)) = of_int (- n)"
      using assms by (intro rnd32_of_int_pos) simp_all
    then show ?thesis by (simp add: rnd32_minus)
  qed
qed

subsection \<open>The coordinate mapping\<close>

lemma trunc_mono:
  assumes "x \<le> y"
  shows "trunc x \<le> trunc y"
proof (cases "0 \<le> x")
  case True
  then have "0 \<le> y" using assms by simp
  with True show ?thesis using floor_mono [OF assms] by (simp add: trunc_def)
next
  case False
  then have n: "\<lceil>x\<rceil> \<le> 0" by (simp add: ceiling_le_iff)
  show ?thesis
  proof (cases "0 \<le> y")
    case True
    then have "0 \<le> \<lfloor>y\<rfloor>" by simp
    with n have "\<lceil>x\<rceil> \<le> \<lfloor>y\<rfloor>" by (rule order_trans)
    with False True show ?thesis by (simp add: trunc_def)
  next
    case False
    with \<open>\<not> 0 \<le> x\<close> show ?thesis using ceiling_mono [OF assms] by (simp add: trunc_def)
  qed
qed

lemma trunc_of_int [simp]: "trunc (of_int n) = n"
  by (simp add: trunc_def)

lemma f2i_SomeD: "f2i x = Some t \<Longrightarrow> t = trunc x"
  by (simp add: f2i_def Let_def split: if_splits)

lemma f2i_mono: "x \<le> y \<Longrightarrow> f2i x = Some s \<Longrightarrow> f2i y = Some t \<Longrightarrow> s \<le> t"
  using trunc_mono [of x y] f2i_SomeD [of x s] f2i_SomeD [of y t] by simp

lemma i2f_mono: "a \<le> b \<Longrightarrow> i2f a \<le> i2f b"
  by (simp add: i2f_def rnd32_mono)

lemma scale_edge_mono:
  assumes "a \<le> b" and "0 \<le> s"
    and "scale_edge a (Some s) = Some x" and "scale_edge b (Some s) = Some y"
  shows "x \<le> y"
proof -
  have "i2f a * s \<le> i2f b * s"
    using assms(1,2) by (intro mult_right_mono i2f_mono)
  then have "fmul (i2f a) s \<le> fmul (i2f b) s"
    by (simp add: fmul_def rnd32_mono)
  moreover have "f2i (fmul (i2f a) s) = Some x" "f2i (fmul (i2f b) s) = Some y"
    using assms(3,4) by (simp_all add: scale_edge_def)
  ultimately show ?thesis by (rule f2i_mono)
qed

lemma clamp_edge_mono: "x \<le> y \<Longrightarrow> clamp_edge x n \<le> clamp_edge y n"
  by (simp add: clamp_edge_def)

lemma clamp_edge_idem: "clamp_edge (clamp_edge x n) n = clamp_edge x n"
  by (simp add: clamp_edge_def)

lemma map_box_SomeD:
  assumes "map_box sx sy c r b = Some (x1, y1, x2, y2)"
  obtains u1 v1 u2 v2 where
    "scale_edge (left b) sx = Some u1" "scale_edge (top' b) sy = Some v1"
    "scale_edge (right b) sx = Some u2" "scale_edge (bottom b) sy = Some v2"
    "x1 = clamp_edge u1 c" "y1 = clamp_edge v1 r" "x2 = clamp_edge u2 c" "y2 = clamp_edge v2 r"
  using assms
  by (auto simp add: map_box_def scale_box_def clamp_box_def split: option.splits)

text \<open>
  C9. Clamping a box to the frame a second time changes nothing, for every box and every
  frame size.
\<close>

theorem clamp_box_idempotent:
  "clamp_box fcols frows (clamp_box fcols frows b) = clamp_box fcols frows b"
  by (cases b) (simp add: clamp_box_def clamp_edge_idem)

lemma i2f_exact: "\<bar>n\<bar> \<le> 2 ^ 24 \<Longrightarrow> i2f n = of_int n"
  by (simp add: i2f_def rnd32_of_int)

lemma i2f_pos: "0 < n \<Longrightarrow> 0 < i2f n"
  by (simp add: i2f_def rnd32_pos)

lemma scale_edge_zero: "scale_edge 0 (Some s) = Some 0"
  by (simp add: scale_edge_def i2f_def fmul_def f2i_def trunc_def)

lemma f2i_in_range: "- (2 ^ 31) \<le> trunc x \<Longrightarrow> trunc x < 2 ^ 31 \<Longrightarrow> f2i x = Some (trunc x)"
  by (simp add: f2i_def)

lemma full_extent_edge:
  assumes "1 \<le> fw" and "fw \<le> 2 ^ 24" and "1 \<le> mw"
  shows "\<exists>t. scale_edge mw (frame_scale fw mw) = Some t \<and> fw - 1 \<le> t"
proof -
  define M where "M = i2f mw"
  define q where "q = of_int fw / M"
  define s where "s = rnd32 q"
  define P where "P = M * s"
  define R where "R = fmul M s"
  have F: "i2f fw = of_int fw" using assms(1,2) by (intro i2f_exact) simp
  have Mpos: "0 < M" using assms(3) by (simp add: M_def i2f_pos)
  have fs: "frame_scale fw mw = Some s"
    using Mpos by (simp add: frame_scale_def fdiv_def F s_def q_def M_def)
  have fwr: "(of_int fw :: rat) \<le> 2 ^ 24"
  proof -
    have "(of_int fw :: rat) \<le> of_int (2 ^ 24)" using assms(2) by (simp only: of_int_le_iff)
    then show ?thesis by simp
  qed
  have qpos: "0 < q" using assms(1) Mpos by (simp add: q_def)
  have "\<bar>s - q\<bar> \<le> \<bar>q\<bar> / 2 ^ 24" unfolding s_def by (rule rnd32_err)
  then have "\<bar>s - q\<bar> \<le> q / 2 ^ 24" using qpos by simp
  then have "M * \<bar>s - q\<bar> \<le> M * (q / 2 ^ 24)"
    using Mpos by (intro mult_left_mono) simp_all
  moreover have "M * (q / 2 ^ 24) = of_int fw / 2 ^ 24" using Mpos by (simp add: q_def)
  moreover have "M * \<bar>s - q\<bar> = \<bar>P - of_int fw\<bar>"
  proof -
    have "P - of_int fw = M * (s - q)" using Mpos by (simp add: P_def q_def right_diff_distrib)
    then have "\<bar>P - of_int fw\<bar> = \<bar>M\<bar> * \<bar>s - q\<bar>" by (simp only: abs_mult)
    then show ?thesis using Mpos by simp
  qed
  ultimately have "\<bar>P - of_int fw\<bar> \<le> of_int fw / 2 ^ 24" by simp
  also have "\<dots> \<le> 1" using fwr by simp
  finally have Pb: "of_int fw - 1 \<le> P" "P \<le> of_int fw + 1" by (simp_all add: abs_le_iff)
  have lowR: "of_int (fw - 1) \<le> R"
  proof -
    have "rnd32 (of_int (fw - 1)) \<le> rnd32 P" using Pb(1) by (intro rnd32_mono) simp
    moreover have "rnd32 (of_int (fw - 1)) = of_int (fw - 1)"
      using assms(1,2) by (intro rnd32_of_int) simp
    ultimately show ?thesis by (simp add: R_def fmul_def P_def)
  qed
  have upR: "R \<le> of_int (2 ^ 26)"
  proof -
    have P0: "0 \<le> P" using Pb(1) assms(1) by simp
    have "\<bar>rnd32 P - P\<bar> \<le> \<bar>P\<bar> / 2 ^ 24" by (rule rnd32_err)
    then have "rnd32 P - P \<le> \<bar>P\<bar> / 2 ^ 24" by (rule abs_le_D1)
    then have "rnd32 P \<le> P + P / 2 ^ 24" using P0 by simp
    also have "\<dots> \<le> 2 * P" using P0 by simp
    also have "\<dots> \<le> 2 * (2 ^ 24 + 1)" using Pb(2) fwr by simp
    also have "\<dots> \<le> 2 ^ 26" by simp
    finally show ?thesis by (simp add: R_def fmul_def P_def)
  qed
  have "trunc (of_int (fw - 1)) \<le> trunc R" using lowR by (rule trunc_mono)
  then have lo: "fw - 1 \<le> trunc R" by (simp only: trunc_of_int)
  have "trunc R \<le> trunc (of_int (2 ^ 26))" using upR by (rule trunc_mono)
  then have hi: "trunc R \<le> 2 ^ 26" by (simp only: trunc_of_int)
  have "f2i R = Some (trunc R)"
    using lo hi assms(1) by (intro f2i_in_range) simp_all
  then have "scale_edge mw (frame_scale fw mw) = Some (trunc R)"
    by (simp add: fs scale_edge_def R_def M_def)
  with lo show ?thesis by blast
qed

lemma clamp_edge_full: "1 \<le> n \<Longrightarrow> n - 1 \<le> t \<Longrightarrow> clamp_edge t n = n - 1"
  by (simp add: clamp_edge_def)

lemma clamp_edge_zero: "1 \<le> n \<Longrightarrow> clamp_edge 0 n = 0"
  by (simp add: clamp_edge_def)

lemma frame_scale_defined:
  assumes "1 \<le> mw"
  shows "\<exists>s. frame_scale fw mw = Some s"
  using i2f_pos [of mw] assms by (simp add: frame_scale_def fdiv_def)

text \<open>
  C8, as amended. For a frame of at most \<open>2 ^ 24\<close> pixels in each direction and a positive
  model input size, the box that covers the whole model input maps to the box that covers
  the whole frame.
\<close>

theorem full_extent_maps_to_full_frame:
  assumes "1 \<le> frame_w" and "frame_w \<le> 2 ^ 24" and "1 \<le> frame_h" and "frame_h \<le> 2 ^ 24"
    and "1 \<le> model_w" and "1 \<le> model_h"
  shows "map_box (frame_scale frame_w model_w) (frame_scale frame_h model_h) frame_w frame_h
           \<lparr>left = 0, top' = 0, right = model_w, bottom = model_h\<rparr>
         = Some (0, 0, frame_w - 1, frame_h - 1)"
proof -
  obtain sx sy where s: "frame_scale frame_w model_w = Some sx" "frame_scale frame_h model_h = Some sy"
    using frame_scale_defined [OF assms(5)] frame_scale_defined [OF assms(6)] by blast
  obtain tx where tx: "scale_edge model_w (frame_scale frame_w model_w) = Some tx" "frame_w - 1 \<le> tx"
    using full_extent_edge [OF assms(1,2,5)] by blast
  obtain ty where ty: "scale_edge model_h (frame_scale frame_h model_h) = Some ty" "frame_h - 1 \<le> ty"
    using full_extent_edge [OF assms(3,4,6)] by blast
  have "scale_box (frame_scale frame_w model_w) (frame_scale frame_h model_h)
          \<lparr>left = 0, top' = 0, right = model_w, bottom = model_h\<rparr> = Some (0, 0, tx, ty)"
    using tx(1) ty(1) by (simp add: scale_box_def s scale_edge_zero)
  then show ?thesis
    using assms(1,3) tx(2) ty(2)
    by (simp add: map_box_def clamp_box_def clamp_edge_full clamp_edge_zero)
qed

theorem full_extent_maps_to_full_frame_witness:
  "(1 :: int) \<le> 1920 \<and> (1920 :: int) \<le> 2 ^ 24 \<and> (1 :: int) \<le> 1080 \<and> (1080 :: int) \<le> 2 ^ 24
   \<and> (1 :: int) \<le> 640
   \<and> map_box (frame_scale 1920 640) (frame_scale 1080 640) 1920 1080
         \<lparr>left = 0, top' = 0, right = 640, bottom = 640\<rparr> = Some (0, 0, 1919, 1079)"
  using full_extent_maps_to_full_frame [of 1920 1080 640 640] by simp

theorem full_extent_counterexample:
  "map_box (frame_scale 16777217 41) (frame_scale 1080 640) 16777217 1080
     \<lparr>left = 0, top' = 0, right = 41, bottom = 640\<rparr> = Some (0, 0, 16777215, 1079)
   \<and> map_box (frame_scale 16777217 41) (frame_scale 1080 640) 16777217 1080
     \<lparr>left = 0, top' = 0, right = 41, bottom = 640\<rparr> \<noteq> Some (0, 0, 16777217 - 1, 1080 - 1)"
  by code_simp

lemma fmul_edge_mono: "a \<le> b \<Longrightarrow> 0 \<le> s \<Longrightarrow> fmul (i2f a) s \<le> fmul (i2f b) s"
  by (simp add: fmul_def rnd32_mono mult_right_mono i2f_mono)

lemma f2i_defined:
  assumes "- (2 ^ 31) \<le> x" and "x < 2 ^ 31"
  shows "f2i x = Some (trunc x)"
proof -
  have "trunc (of_int (- (2 ^ 31))) \<le> trunc x"
    using assms(1) by (intro trunc_mono) simp
  then have lo: "- (2 ^ 31) \<le> trunc x" by (simp only: trunc_of_int)
  have hi: "trunc x < 2 ^ 31"
  proof (cases "0 \<le> x")
    case True
    then have "(of_int (trunc x) :: rat) \<le> x" by (simp add: trunc_def)
    also have "x < of_int (2 ^ 31)" using assms(2) by simp
    finally show ?thesis by (simp only: of_int_less_iff)
  next
    case False
    then have "trunc x \<le> 0" by (simp add: trunc_def ceiling_le_iff)
    then show ?thesis by simp
  qed
  from lo hi show ?thesis by (rule f2i_in_range)
qed

lemma scale_edge_in_range:
  assumes "- (2 ^ 31) \<le> fmul (i2f e) s" and "fmul (i2f e) s < 2 ^ 31"
  shows "scale_edge e (Some s) = Some (trunc (fmul (i2f e) s))"
  using f2i_defined [OF assms] by (simp add: scale_edge_def)

text \<open>
  C10, as amended. When the left edge of a detection is not right of its right edge and the
  top edge not below its bottom edge, the scales are positive, and the scaled edges are in the
  range of \<^verbatim>\<open>int\<close> (the \<^verbatim>\<open>float\<close> products of the left and top edge are at least \<open>- 2 ^ 31\<close>,
  those of the right and bottom edge below \<open>2 ^ 31\<close>), the box is mapped and the mapped box has
  its edges in the same order.
\<close>

theorem map_box_keeps_edge_order:
  assumes "left b \<le> right b" and "top' b \<le> bottom b" and "0 < sx" and "0 < sy"
    and "- (2 ^ 31) \<le> fmul (i2f (left b)) sx" and "fmul (i2f (right b)) sx < 2 ^ 31"
    and "- (2 ^ 31) \<le> fmul (i2f (top' b)) sy" and "fmul (i2f (bottom b)) sy < 2 ^ 31"
  shows "\<exists>x1 y1 x2 y2. map_box (Some sx) (Some sy) fcols frows b = Some (x1, y1, x2, y2)
           \<and> x1 \<le> x2 \<and> y1 \<le> y2"
proof -
  have sx: "0 \<le> sx" and sy: "0 \<le> sy" using assms(3,4) by simp_all
  have mx: "fmul (i2f (left b)) sx \<le> fmul (i2f (right b)) sx"
    using assms(1) sx by (rule fmul_edge_mono)
  have my: "fmul (i2f (top' b)) sy \<le> fmul (i2f (bottom b)) sy"
    using assms(2) sy by (rule fmul_edge_mono)
  have l: "scale_edge (left b) (Some sx) = Some (trunc (fmul (i2f (left b)) sx))"
    using assms(5,6) mx by (intro scale_edge_in_range) simp_all
  have r: "scale_edge (right b) (Some sx) = Some (trunc (fmul (i2f (right b)) sx))"
    using assms(5,6) mx by (intro scale_edge_in_range) simp_all
  have t: "scale_edge (top' b) (Some sy) = Some (trunc (fmul (i2f (top' b)) sy))"
    using assms(7,8) my by (intro scale_edge_in_range) simp_all
  have bt: "scale_edge (bottom b) (Some sy) = Some (trunc (fmul (i2f (bottom b)) sy))"
    using assms(7,8) my by (intro scale_edge_in_range) simp_all
  have "trunc (fmul (i2f (left b)) sx) \<le> trunc (fmul (i2f (right b)) sx)"
    using mx by (rule trunc_mono)
  moreover have "trunc (fmul (i2f (top' b)) sy) \<le> trunc (fmul (i2f (bottom b)) sy)"
    using my by (rule trunc_mono)
  ultimately show ?thesis
    by (simp add: map_box_def scale_box_def clamp_box_def l r t bt clamp_edge_mono)
qed

theorem map_box_keeps_edge_order_witness:
  "left example_box \<le> right example_box \<and> top' example_box \<le> bottom example_box
   \<and> - (2 ^ 31) \<le> fmul (i2f (left example_box)) 3
   \<and> fmul (i2f (right example_box)) 3 < 2 ^ 31
   \<and> - (2 ^ 31) \<le> fmul (i2f (top' example_box)) (27 / 16)
   \<and> fmul (i2f (bottom example_box)) (27 / 16) < 2 ^ 31
   \<and> map_box (Some 3) (Some (27 / 16)) 1920 1080 example_box = Some (300, 168, 600, 337)"
proof -
  have o: "left example_box \<le> right example_box" "top' example_box \<le> bottom example_box"
    by (simp_all add: example_box_def)
  have p: "(0 :: rat) < 3" "(0 :: rat) < 27 / 16" by simp_all
  have g: "- (2 ^ 31) \<le> fmul (i2f (left example_box)) 3"
    "fmul (i2f (right example_box)) 3 < 2 ^ 31"
    "- (2 ^ 31) \<le> fmul (i2f (top' example_box)) (27 / 16)"
    "fmul (i2f (bottom example_box)) (27 / 16) < 2 ^ 31"
    by code_simp+
  have m: "map_box (Some 3) (Some (27 / 16)) 1920 1080 example_box = Some (300, 168, 600, 337)"
    by code_simp
  from map_box_keeps_edge_order [OF o p g, of 1920 1080] m
  have "(300 :: int) \<le> 600 \<and> (168 :: int) \<le> 337" by simp
  with o g m show ?thesis by simp
qed

theorem map_box_order_counterexample:
  "left example_wide_box \<le> right example_wide_box
   \<and> top' example_wide_box \<le> bottom example_wide_box
   \<and> frame_scale 1920 640 = Some 3 \<and> frame_scale 1080 640 = Some (27 / 16)
   \<and> scale_edge (left example_wide_box) (frame_scale 1920 640) = Some 30
   \<and> fmul (i2f (right example_wide_box)) 3 = 6000000000
   \<and> map_box (frame_scale 1920 640) (frame_scale 1080 640) 1920 1080 example_wide_box = None"
  by code_simp

lemma rnd32_abs_le:
  "\<bar>rnd32 x\<bar> \<le> 5 / 4 * \<bar>x\<bar>"
proof -
  have "\<bar>rnd32 x\<bar> = \<bar>(rnd32 x - x) + x\<bar>" by simp
  also have "\<dots> \<le> \<bar>rnd32 x - x\<bar> + \<bar>x\<bar>" by (rule abs_triangle_ineq)
  also have "\<dots> \<le> \<bar>x\<bar> / 2 ^ 24 + \<bar>x\<bar>" using rnd32_err [of x] by simp
  also have "\<dots> \<le> 5 / 4 * \<bar>x\<bar>" by simp
  finally show ?thesis .
qed

text \<open>The range of C10 holds whenever an edge times its scale is at most \<open>2 ^ 30\<close> in magnitude.\<close>

lemma scaled_edge_in_int_range:
  assumes "\<bar>of_int e * s\<bar> \<le> 2 ^ 30"
  shows "- (2 ^ 31) \<le> fmul (i2f e) s" and "fmul (i2f e) s < 2 ^ 31"
proof -
  have "\<bar>i2f e * s\<bar> = \<bar>i2f e\<bar> * \<bar>s\<bar>" by (rule abs_mult)
  also have "\<dots> \<le> (5 / 4 * \<bar>of_int e\<bar>) * \<bar>s\<bar>"
    unfolding i2f_def by (intro mult_right_mono rnd32_abs_le) simp
  also have "\<dots> = 5 / 4 * \<bar>of_int e * s\<bar>" by (simp add: abs_mult)
  also have "\<dots> \<le> 5 / 4 * 2 ^ 30" using assms by simp
  finally have P: "\<bar>i2f e * s\<bar> \<le> 5 / 4 * 2 ^ 30" .
  have "\<bar>fmul (i2f e) s\<bar> \<le> 5 / 4 * \<bar>i2f e * s\<bar>"
    unfolding fmul_def by (rule rnd32_abs_le)
  also have "\<dots> \<le> 5 / 4 * (5 / 4 * 2 ^ 30)" using P by simp
  also have "\<dots> < 2 ^ 31" by simp
  finally have "\<bar>fmul (i2f e) s\<bar> < 2 ^ 31" .
  then show "- (2 ^ 31) \<le> fmul (i2f e) s" and "fmul (i2f e) s < 2 ^ 31"
    by (simp_all add: abs_less_iff)
qed

subsection \<open>Reading traces\<close>

lemma stdout_of_simps [simp]:
  "stdout_of [] = []"
  "stdout_of (ev # tr) = (case ev of Stdout s \<Rightarrow> [s] | _ \<Rightarrow> []) @ stdout_of tr"
  "stdout_of (tr @ tr') = stdout_of tr @ stdout_of tr'"
  by (simp_all add: stdout_of_def)

lemma mapped_boxes_simps [simp]:
  "mapped_boxes [] = []"
  "mapped_boxes (ev # tr) =
     (case ev of MapBox x1 y1 x2 y2 \<Rightarrow> [(x1, y1, x2, y2)] | _ \<Rightarrow> []) @ mapped_boxes tr"
  "mapped_boxes (tr @ tr') = mapped_boxes tr @ mapped_boxes tr'"
  by (simp_all add: mapped_boxes_def)

lemma drawn_rectangles_simps [simp]:
  "drawn_rectangles [] = []"
  "drawn_rectangles (ev # tr) =
     (case ev of Rectangle x1 y1 x2 y2 \<Rightarrow> [(x1, y1, x2, y2)] | _ \<Rightarrow> []) @ drawn_rectangles tr"
  "drawn_rectangles (tr @ tr') = drawn_rectangles tr @ drawn_rectangles tr'"
  by (simp_all add: drawn_rectangles_def)

lemma stages_simps [simp]:
  "stages [] = []"
  "stages (ev # tr) = stage_of ev @ stages tr"
  "stages (tr @ tr') = stages tr @ stages tr'"
  by (simp_all add: stages_def)

lemma count_list_append [simp]: "count_list (xs @ ys) x = count_list xs x + count_list ys x"
  by (induction xs) simp_all

subsection \<open>The mapping inside the loop\<close>











subsection \<open>One iteration\<close>

lemma draw_detections_trace:
  "stdout_of (fst (draw_detections nm sx sy c r ds)) = []
   \<and> count_list (fst (draw_detections nm sx sy c r ds)) CapGrab = 0
   \<and> count_list (fst (draw_detections nm sx sy c r ds)) Inference = 0
   \<and> count_list (fst (draw_detections nm sx sy c r ds)) WriterWrite = 0
   \<and> set (stages (fst (draw_detections nm sx sy c r ds))) \<subseteq> {CoordinateMapper, OverlayRenderer}"
  by (induction ds) (auto simp add: stage_of_def split: option.splits prod.splits)

lemma overlay_frame_trace:
  "stdout_of (fst (overlay_frame nm e f)) = []
   \<and> count_list (fst (overlay_frame nm e f)) CapGrab = 0
   \<and> count_list (fst (overlay_frame nm e f)) Inference = 0
   \<and> count_list (fst (overlay_frame nm e f)) WriterWrite = 0
   \<and> set (stages (fst (overlay_frame nm e f))) \<subseteq> {CoordinateMapper, OverlayRenderer}"
proof -
  obtain es ok where d: "draw_detections nm (frame_scale (cols f) (model_width e))
      (frame_scale (rows f) (model_height e)) (cols f) (rows f) (od_results f) = (es, ok)"
    by (cases "draw_detections nm (frame_scale (cols f) (model_width e))
      (frame_scale (rows f) (model_height e)) (cols f) (rows f) (od_results f)")
  from draw_detections_trace [of nm "frame_scale (cols f) (model_width e)"
      "frame_scale (rows f) (model_height e)" "cols f" "rows f" "od_results f"]
  show ?thesis by (simp add: overlay_frame_def d stage_of_def)
qed

lemma stdout_of_report_frame:
  "stdout_of (report_frame nm n ds) =
     frame_header_line n (int (length ds)) # map (detection_line nm) ds
     @ (if ds = [] then [no_objects_line] else [])"
proof -
  have "stdout_of (map (\<lambda>d. Stdout (detection_line nm d)) ds) = map (detection_line nm) ds"
    by (induction ds) simp_all
  then show ?thesis by (simp add: report_frame_def)
qed

lemma report_frame_counts:
  "count_list (report_frame nm n ds) CapGrab = 0"
  "count_list (report_frame nm n ds) Inference = 0"
  "count_list (report_frame nm n ds) WriterWrite = 0"
  "mapped_boxes (report_frame nm n ds) = []"
  "drawn_rectangles (report_frame nm n ds) = []"
  by (induction ds) (simp_all add: report_frame_def)

lemma stage_of_report_lines:
  "stage_of (Stdout (frame_header_line n c)) = [Reporter]"
  "stage_of (Stdout (detection_line nm d)) = [Reporter]"
  "stage_of (Stdout no_objects_line) = [Reporter]"
  "stage_of (Stdout (inference_failed_line n r)) = []"
  by (simp_all add: stage_of_def frame_header_line_def detection_line_def no_objects_line_def
      inference_failed_line_def)

text \<open>The two ways an iteration can go.\<close>

lemma loop_body_failed:
  assumes "infer_ret f \<noteq> 0"
  shows "loop_body nm e n f =
     ([Clone, Resize (model_width e) (model_height e), CvtColor, Inference,
       Stdout (inference_failed_line n (infer_ret f))], Break)"
  using assms by (simp add: loop_body_def)

lemma loop_body_inferred:
  assumes "infer_ret f = 0"
  shows "loop_body nm e n f =
     ([Clone, Resize (model_width e) (model_height e), CvtColor, Inference]
      @ report_frame nm n (od_results f) @ fst (overlay_frame nm e f)
      @ (if snd (overlay_frame nm e f)
         then PutText (fps_overlay_text (fps_text f) n) 10 40
              # (if writer_opened e then [WriterWrite] else [])
         else []),
      if snd (overlay_frame nm e f) then Continue else Undefined)"
  using assms by (simp add: loop_body_def Let_def split: prod.splits)

lemma overlay_frame_no_detections:
  "od_results f = [] \<Longrightarrow> overlay_frame nm e f = ([ComputeScale], True)"
  by (simp add: overlay_frame_def)

lemma loop_body_one_inference:
  "count_list (fst (loop_body nm e n f)) Inference = 1"
proof (cases "infer_ret f = 0")
  case False
  then show ?thesis by (simp add: loop_body_failed)
next
  case True
  then show ?thesis using overlay_frame_trace [of nm e f]
    by (simp add: loop_body_inferred report_frame_counts)
qed

lemma stage_of_statements:
  "stage_of CapGrab = [FrameSource]" "stage_of Clone = []"
  "stage_of (Resize w h) = [Preprocessor]" "stage_of CvtColor = [Preprocessor]"
  "stage_of Inference = [DetectorAdapter]" "stage_of ComputeScale = [CoordinateMapper]"
  "stage_of (PutText s x y) = [OverlayRenderer]" "stage_of WriterWrite = [OutputSink]"
  by (simp_all add: stage_of_def)

lemma stages_report_frame_eq:
  "stages (report_frame nm n ds) = replicate (length ds + (if ds = [] then 2 else 1)) Reporter"
proof -
  have "stages (map (\<lambda>d. Stdout (detection_line nm d)) ds) = replicate (length ds) Reporter"
    by (induction ds) (simp_all add: stage_of_report_lines)
  then show ?thesis
    by (cases "ds = []")
      (simp_all add: report_frame_def stage_of_report_lines numeral_2_eq_2 replicate_append_same)
qed

lemma draw_detections_stages:
  "stages (fst (draw_detections nm sx sy c r ds))
     = concat (map (\<lambda>d. [CoordinateMapper, OverlayRenderer, OverlayRenderer])
         (takeWhile (\<lambda>d. map_box sx sy c r (box d) \<noteq> None) ds))
   \<and> snd (draw_detections nm sx sy c r ds)
     = (takeWhile (\<lambda>d. map_box sx sy c r (box d) \<noteq> None) ds = ds)"
  by (induction ds) (auto simp add: stage_of_def split: option.splits prod.splits)

lemma overlay_frame_stages:
  "stages (fst (overlay_frame nm e f))
     = CoordinateMapper
       # concat (map (\<lambda>d. [CoordinateMapper, OverlayRenderer, OverlayRenderer])
           (mapped_detections e f))"
  "snd (overlay_frame nm e f) = (mapped_detections e f = od_results f)"
proof -
  obtain es ok where d: "draw_detections nm (frame_scale (cols f) (model_width e))
      (frame_scale (rows f) (model_height e)) (cols f) (rows f) (od_results f) = (es, ok)"
    by (cases "draw_detections nm (frame_scale (cols f) (model_width e))
      (frame_scale (rows f) (model_height e)) (cols f) (rows f) (od_results f)")
  from draw_detections_stages [of nm "frame_scale (cols f) (model_width e)"
      "frame_scale (rows f) (model_height e)" "cols f" "rows f" "od_results f"]
  show "stages (fst (overlay_frame nm e f))
     = CoordinateMapper
       # concat (map (\<lambda>d. [CoordinateMapper, OverlayRenderer, OverlayRenderer])
           (mapped_detections e f))"
    and "snd (overlay_frame nm e f) = (mapped_detections e f = od_results f)"
    by (simp_all add: overlay_frame_def d stage_of_def mapped_detections_def)
qed

text \<open>
  C3, as amended. In every iteration the stages run in this order: Frame Source, Preprocessor,
  Detector Adapter (called once); then, when the inference succeeded, the Reporter with all
  its lines, the Coordinate Mapper computing the scales, for each detection in turn the
  Coordinate Mapper and then the Overlay Renderer (rectangle and label), the Overlay Renderer
  with the frame rate, and the Output Sink if the writer is open. The boxes are mapped after
  the inference call and after the report of the frame has been printed.
\<close>

theorem stage_order_of_iteration:
  "stages (CapGrab # fst (loop_body nm e n f)) =
     [FrameSource, Preprocessor, Preprocessor, DetectorAdapter]
     @ (if infer_ret f \<noteq> 0 then []
        else replicate (length (od_results f) + (if od_results f = [] then 2 else 1)) Reporter
             @ CoordinateMapper
               # concat (map (\<lambda>d. [CoordinateMapper, OverlayRenderer, OverlayRenderer])
                   (mapped_detections e f))
             @ (if mapped_detections e f = od_results f
                then OverlayRenderer # (if writer_opened e then [OutputSink] else [])
                else []))
   \<and> count_list (fst (loop_body nm e n f)) Inference = 1"
proof (cases "infer_ret f = 0")
  case False
  then show ?thesis
    using loop_body_one_inference [of nm e n f]
    by (simp add: loop_body_failed stage_of_statements stage_of_report_lines)
next
  case True
  then show ?thesis
    using loop_body_one_inference [of nm e n f]
    by (simp add: loop_body_inferred stage_of_statements stages_report_frame_eq
        overlay_frame_stages)
qed

theorem stage_order_counterexample:
  "stages (CapGrab # fst (loop_body example_names example_env 1 example_two_detections_frame))
     = [FrameSource, Preprocessor, Preprocessor, DetectorAdapter, Reporter, Reporter, Reporter,
        CoordinateMapper, CoordinateMapper, OverlayRenderer, OverlayRenderer,
        CoordinateMapper, OverlayRenderer, OverlayRenderer, OverlayRenderer, OutputSink]
   \<and> \<not> sorted (map spec_stage_rank
          (stages (CapGrab
             # fst (loop_body example_names example_env 1 example_two_detections_frame))))
   \<and> \<not> sorted (map spec_stage_rank (filter (\<lambda>s. s \<noteq> Reporter)
          (stages (CapGrab
             # fst (loop_body example_names example_env 1 example_two_detections_frame)))))"
  by code_simp

text \<open>
  C5. For a frame on which the detector succeeds with no detection, the iteration prints the
  header and exactly one line "no objects detected", draws no rectangle, and the loop goes on.
\<close>

theorem empty_detection_list_reported:
  assumes "infer_ret f = 0" and "od_results f = []"
  shows "snd (loop_body nm e n f) = Continue
         \<and> stdout_of (fst (loop_body nm e n f)) = [frame_header_line n 0, no_objects_line]
         \<and> count_list (stdout_of (fst (loop_body nm e n f))) no_objects_line = 1
         \<and> drawn_rectangles (fst (loop_body nm e n f)) = []"
proof -
  have "frame_header_line n 0 \<noteq> no_objects_line"
    by (simp add: frame_header_line_def no_objects_line_def)
  then show ?thesis
    using assms
    by (simp add: loop_body_inferred overlay_frame_no_detections stdout_of_report_frame
        report_frame_counts)
qed

theorem empty_detection_list_reported_witness:
  "infer_ret (example_frame\<lparr>od_results := []\<rparr>) = 0
   \<and> od_results (example_frame\<lparr>od_results := []\<rparr>) = []
   \<and> snd (loop_body example_names example_env 2 (example_frame\<lparr>od_results := []\<rparr>)) = Continue
   \<and> stdout_of (fst (loop_body example_names example_env 2 (example_frame\<lparr>od_results := []\<rparr>)))
       = [''Frame 2 detections (0 objects):'' @ newline, ''  no objects detected'' @ newline]
   \<and> drawn_rectangles (fst (loop_body example_names example_env 2
        (example_frame\<lparr>od_results := []\<rparr>))) = []"
proof -
  have h: "infer_ret (example_frame\<lparr>od_results := []\<rparr>) = 0"
    "od_results (example_frame\<lparr>od_results := []\<rparr>) = []"
    by (simp_all add: example_frame_def)
  have l: "frame_header_line 2 0 = ''Frame 2 detections (0 objects):'' @ newline"
    "no_objects_line = ''  no objects detected'' @ newline"
    by code_simp+
  from empty_detection_list_reported [OF h, of example_names example_env 2] h l
  show ?thesis by simp
qed

text \<open>
  C6. For a frame on which the detector succeeds with at least one detection, the iteration
  prints the header and then one line for each detection, in the order of the list: the class
  name, the four edges of the box as the detector returned them, and the confidence with three
  decimals.
\<close>

theorem detections_reported_in_model_space:
  assumes "infer_ret f = 0" and "od_results f \<noteq> []"
  shows "stdout_of (fst (loop_body nm e n f)) =
     frame_header_line n (int (length (od_results f)))
     # map (\<lambda>det. ''  '' @ nm (cls_id det) @ '' @ ('' @ fmt_d (left (box det)) @ '' ''
              @ fmt_d (top' (box det)) @ '' '' @ fmt_d (right (box det)) @ '' ''
              @ fmt_d (bottom (box det)) @ '') '' @ fmt_f 3 (prop' det) @ newline)
         (od_results f)"
  using assms overlay_frame_trace [of nm e f]
  by (simp add: loop_body_inferred stdout_of_report_frame detection_line_def)

theorem detections_reported_in_model_space_witness:
  "infer_ret example_frame = 0 \<and> od_results example_frame \<noteq> []
   \<and> stdout_of (fst (loop_body example_names example_env 1 example_frame))
       = [''Frame 1 detections (1 objects):'' @ newline,
          ''  person @ (100 100 200 200) 0.875'' @ newline]
   \<and> drawn_rectangles (fst (loop_body example_names example_env 1 example_frame))
       = [(300, 168, 600, 337)]"
proof -
  have h: "infer_ret example_frame = 0" "od_results example_frame \<noteq> []"
    by (simp_all add: example_frame_def)
  have l: "frame_header_line 1 (int (length (od_results example_frame)))
      # map (\<lambda>det. ''  '' @ example_names (cls_id det) @ '' @ ('' @ fmt_d (left (box det)) @ '' ''
              @ fmt_d (top' (box det)) @ '' '' @ fmt_d (right (box det)) @ '' ''
              @ fmt_d (bottom (box det)) @ '') '' @ fmt_f 3 (prop' det) @ newline)
         (od_results example_frame)
      = [''Frame 1 detections (1 objects):'' @ newline,
          ''  person @ (100 100 200 200) 0.875'' @ newline]"
    by code_simp
  have r: "drawn_rectangles (fst (loop_body example_names example_env 1 example_frame))
       = [(300, 168, 600, 337)]"
    by code_simp
  from detections_reported_in_model_space [OF h, of example_names example_env 1] h l r
  show ?thesis by simp
qed

subsection \<open>The loop\<close>

lemma stream_loop_step:
  assumes "\<not> frame_empty f" and "int m \<noteq> 2 ^ 63 - 1"
  shows "stream_loop nm e (int m) (f # fs) =
     (case loop_body nm e (int (Suc m)) f of
        (es, Continue) \<Rightarrow>
          (case stream_loop nm e (int (Suc m)) fs of (tr, r) \<Rightarrow> (CapGrab # es @ tr, r))
      | (es, Break) \<Rightarrow> (CapGrab # es, InferenceFailed, int (Suc m))
      | (es, Undefined) \<Rightarrow> (CapGrab # es, UndefinedBehaviour, int (Suc m)))"
proof -
  have s: "int (Suc m) = int m + 1" by simp
  show ?thesis using assms unfolding s by simp
qed

lemma stream_loop_overflow:
  assumes "\<not> frame_empty f" and "int m = 2 ^ 63 - 1"
  shows "stream_loop nm e (int m) (f # fs) = ([CapGrab], UndefinedBehaviour, int m)"
  using assms by simp

lemma stream_loop_end:
  assumes "frame_empty f"
  shows "stream_loop nm e n (f # fs) = ([CapGrab, Stdout (end_of_video_line n)], EndOfStream, n)"
  using assms by simp

lemma stream_loop_normal:
  assumes "\<forall>f \<in> set (takeWhile (\<lambda>f. \<not> frame_empty f) fs). infer_ret f = 0"
    and "stream_loop nm e (int m) fs = (tr, ex, cnt)" and "ex \<noteq> UndefinedBehaviour"
  shows "ex = EndOfStream \<and> cnt = int (m + length (takeWhile (\<lambda>f. \<not> frame_empty f) fs))
     \<and> tr = concat (map (\<lambda>(i, f). CapGrab # fst (loop_body nm e (int i) f))
                 (enumerate (Suc m) (takeWhile (\<lambda>f. \<not> frame_empty f) fs)))
            @ [CapGrab, Stdout (end_of_video_line cnt)]"
  using assms
proof (induction fs arbitrary: m tr)
  case Nil
  then show ?case by auto
next
  case (Cons f fs)
  show ?case
  proof (cases "frame_empty f")
    case True
    with Cons.prems(2) show ?thesis by (auto simp add: stream_loop_end)
  next
    case False
    have no: "int m \<noteq> 2 ^ 63 - 1"
      using Cons.prems False by (auto simp add: stream_loop_overflow)
    have inf: "infer_ret f = 0" using Cons.prems(1) False by simp
    have rest: "\<forall>f \<in> set (takeWhile (\<lambda>f. \<not> frame_empty f) fs). infer_ret f = 0"
      using Cons.prems(1) False by simp
    obtain es res where lb: "loop_body nm e (int (Suc m)) f = (es, res)"
      by (cases "loop_body nm e (int (Suc m)) f")
    have res: "res = Continue \<or> res = Undefined"
      using lb by (auto simp add: loop_body_inferred [OF inf] split: if_splits)
    then show ?thesis
    proof
      assume c: "res = Continue"
      obtain tr' r where sl: "stream_loop nm e (int (Suc m)) fs = (tr', r)"
        by (cases "stream_loop nm e (int (Suc m)) fs")
      from Cons.prems(2) have eq: "(CapGrab # es @ tr', r) = (tr, ex, cnt)"
        by (simp only: stream_loop_step [OF False no] lb c sl prod.case iter_result.case)
      then have r: "r = (ex, cnt)" and tr: "tr = CapGrab # es @ tr'" by simp_all
      from sl r have "stream_loop nm e (int (Suc m)) fs = (tr', ex, cnt)" by simp
      from Cons.IH [OF rest this Cons.prems(3)] show ?thesis
        using False by (simp add: tr lb del: of_nat_Suc)
    next
      assume u: "res = Undefined"
      from Cons.prems(2) have "(CapGrab # es, UndefinedBehaviour, int (Suc m)) = (tr, ex, cnt)"
        by (simp only: stream_loop_step [OF False no] lb u prod.case iter_result.case)
      with Cons.prems(3) show ?thesis by simp
    qed
  qed
qed

subsection \<open>The whole run\<close>

lemma open_capture_trace:
  "stdout_of [open_capture vs] = []"
  "open_capture vs \<noteq> CapGrab"
  "open_capture vs \<noteq> Inference"
  "open_capture vs \<noteq> WriterWrite"
  by (simp_all add: open_capture_def split: list.splits)

lemma loop_body_counts:
  "count_list (fst (loop_body nm e n f)) CapGrab = 0"
  "\<not> writer_opened e \<Longrightarrow> count_list (fst (loop_body nm e n f)) WriterWrite = 0"
  using overlay_frame_trace [of nm e f]
  by (cases "infer_ret f = 0"; simp add: loop_body_inferred loop_body_failed report_frame_counts)+

lemma loop_body_stdout:
  assumes "infer_ret f = 0"
  shows "stdout_of (fst (loop_body nm e n f)) = stdout_of (report_frame nm n (od_results f))"
  using overlay_frame_trace [of nm e f] by (simp add: loop_body_inferred [OF assms])

lemma count_list_concat_map:
  assumes "\<forall>x \<in> set xs. count_list (g x) a = c"
  shows "count_list (concat (map g xs)) a = c * length xs"
  using assms by (induction xs) simp_all

lemma stdout_of_concat_map:
  "stdout_of (concat (map g xs)) = concat (map (\<lambda>x. stdout_of (g x)) xs)"
  by (induction xs) simp_all

lemma enumerate_snd_mem:
  assumes "p \<in> set (enumerate n xs)"
  shows "snd p \<in> set xs"
proof -
  from assms have "fst p - n < length xs" and "xs ! (fst p - n) = snd p"
    by (auto simp add: in_set_enumerate_eq)
  then show ?thesis using nth_mem [of "fst p - n" xs] by simp
qed

lemma warning_not_reported: "writer_warning_line \<notin> set (stdout_of (report_frame nm n ds))"
  by (auto simp add: stdout_of_report_frame writer_warning_line_def frame_header_line_def
      detection_line_def no_objects_line_def)

lemma warning_not_end: "end_of_video_line n \<noteq> writer_warning_line"
  by (simp add: writer_warning_line_def end_of_video_line_def)

lemma stream_loop_closed:
  assumes "stream_loop nm e (int m) fs = (tr, ex, cnt)" and "ex \<noteq> UndefinedBehaviour"
  shows "cnt = int (m + length (take (Suc (length (takeWhile (\<lambda>f. infer_ret f = 0)
                    (takeWhile (\<lambda>f. \<not> frame_empty f) fs))))
                  (takeWhile (\<lambda>f. \<not> frame_empty f) fs)))
     \<and> tr = concat (map (\<lambda>(i, f). CapGrab # fst (loop_body nm e (int i) f))
                 (enumerate (Suc m)
                   (take (Suc (length (takeWhile (\<lambda>f. infer_ret f = 0)
                      (takeWhile (\<lambda>f. \<not> frame_empty f) fs))))
                    (takeWhile (\<lambda>f. \<not> frame_empty f) fs))))
            @ (if ex = EndOfStream then [CapGrab, Stdout (end_of_video_line cnt)] else [])
     \<and> (ex = EndOfStream)
         = list_all (\<lambda>f. infer_ret f = 0) (takeWhile (\<lambda>f. \<not> frame_empty f) fs)"
  using assms
proof (induction fs arbitrary: m tr)
  case Nil
  then show ?case by auto
next
  case (Cons f fs)
  show ?case
  proof (cases "frame_empty f")
    case True
    with Cons.prems(1) show ?thesis by (auto simp add: stream_loop_end)
  next
    case False
    have no: "int m \<noteq> 2 ^ 63 - 1"
      using Cons.prems False by (auto simp add: stream_loop_overflow)
    obtain es res where lb: "loop_body nm e (int (Suc m)) f = (es, res)"
      by (cases "loop_body nm e (int (Suc m)) f")
    show ?thesis
    proof (cases "infer_ret f = 0")
      case inf: True
      have res: "res = Continue \<or> res = Undefined"
        using lb by (auto simp add: loop_body_inferred [OF inf] split: if_splits)
      then show ?thesis
      proof
        assume c: "res = Continue"
        obtain tr' r where sl: "stream_loop nm e (int (Suc m)) fs = (tr', r)"
          by (cases "stream_loop nm e (int (Suc m)) fs")
        from Cons.prems(1) have eq: "(CapGrab # es @ tr', r) = (tr, ex, cnt)"
          by (simp only: stream_loop_step [OF False no] lb c sl prod.case iter_result.case)
        then have r: "r = (ex, cnt)" and tr: "tr = CapGrab # es @ tr'" by simp_all
        from sl r have "stream_loop nm e (int (Suc m)) fs = (tr', ex, cnt)" by simp
        from Cons.IH [OF this Cons.prems(2)] show ?thesis
          using False inf by (simp add: tr lb del: of_nat_Suc)
      next
        assume u: "res = Undefined"
        from Cons.prems(1) have "(CapGrab # es, UndefinedBehaviour, int (Suc m)) = (tr, ex, cnt)"
          by (simp only: stream_loop_step [OF False no] lb u prod.case iter_result.case)
        with Cons.prems(2) show ?thesis by simp
      qed
    next
      case ninf: False
      have res: "res = Break" using lb by (simp add: loop_body_failed [OF ninf])
      from Cons.prems(1) have "(CapGrab # es, InferenceFailed, int (Suc m)) = (tr, ex, cnt)"
        by (simp only: stream_loop_step [OF False no] lb res prod.case iter_result.case)
      then show ?thesis
        using False ninf by (auto simp add: lb simp del: of_nat_Suc)
    qed
  qed
qed

text \<open>
  C7. \<^verbatim>\<open>frame_count\<close> starts at 0 and the loop ends with \<^verbatim>\<open>frame_count\<close> equal to the number
  of frames acquired: all the frames the source delivers before the first empty one when every
  inference succeeds, and those up to the first failed inference otherwise. The statements of
  the \<open>i\<close>-th acquired frame are executed after its acquisition, with \<^verbatim>\<open>frame_count\<close> equal to
  \<open>i\<close>; the only other acquisition is the empty one that ends the stream.
\<close>

theorem frame_count_follows_acquisitions:
  assumes "run_loop nm e = (tr, ex, cnt)" and "ex \<noteq> UndefinedBehaviour"
  shows "cnt = int (length (grabbed_frames e))
     \<and> tr = concat (map (\<lambda>(i, f). CapGrab # fst (loop_body nm e (int i) f))
                 (enumerate 1 (grabbed_frames e)))
            @ (if ex = EndOfStream then [CapGrab, Stdout (end_of_video_line cnt)] else [])
     \<and> (ex = EndOfStream) = list_all (\<lambda>f. infer_ret f = 0) (acquired_frames e)
     \<and> count_list tr CapGrab
         = length (grabbed_frames e) + (if ex = EndOfStream then 1 else 0)"
proof -
  let ?G = "\<lambda>(i, f). CapGrab # fst (loop_body nm e (int i) f)"
  have "stream_loop nm e (int 0) (stream e) = (tr, ex, cnt)"
    using assms(1) by (simp add: run_loop_def)
  from stream_loop_closed [OF this assms(2)]
  have c: "cnt = int (length (grabbed_frames e))"
    and t: "tr = concat (map ?G (enumerate 1 (grabbed_frames e)))
            @ (if ex = EndOfStream then [CapGrab, Stdout (end_of_video_line cnt)] else [])"
    and x: "(ex = EndOfStream) = list_all (\<lambda>f. infer_ret f = 0) (acquired_frames e)"
    by (simp_all add: grabbed_frames_def acquired_frames_def)
  have "\<forall>p \<in> set (enumerate 1 (grabbed_frames e)). count_list (?G p) CapGrab = 1"
    by (auto simp add: loop_body_counts)
  from count_list_concat_map [OF this]
  have "count_list (concat (map ?G (enumerate 1 (grabbed_frames e)))) CapGrab
      = length (grabbed_frames e)"
    by simp
  then have g: "count_list tr CapGrab
         = length (grabbed_frames e) + (if ex = EndOfStream then 1 else 0)"
    by (subst t) simp
  from c t x g show ?thesis by (intro conjI)
qed

theorem frame_count_follows_acquisitions_witness:
  "run_loop example_names example_env
     = (fst (run_loop example_names example_env), EndOfStream, 2)
   \<and> EndOfStream \<noteq> UndefinedBehaviour
   \<and> (2 :: int) = int (length (grabbed_frames example_env))
   \<and> fst (run_loop example_names example_env)
       = concat (map (\<lambda>(i, f). CapGrab # fst (loop_body example_names example_env (int i) f))
                  (enumerate 1 (grabbed_frames example_env)))
         @ [CapGrab, Stdout (end_of_video_line 2)]
   \<and> count_list (fst (run_loop example_names example_env)) CapGrab = 3"
proof -
  have h: "run_loop example_names example_env
     = (fst (run_loop example_names example_env), EndOfStream, 2)"
    by code_simp
  have n: "length (grabbed_frames example_env) = 2" by code_simp
  let ?B = "concat (map (\<lambda>(i, f). CapGrab # fst (loop_body example_names example_env (int i) f))
                  (enumerate 1 (grabbed_frames example_env)))"
  have c: "2 = int (length (grabbed_frames example_env))
     \<and> fst (run_loop example_names example_env)
         = ?B @ (if EndOfStream = EndOfStream then [CapGrab, Stdout (end_of_video_line 2)] else [])
     \<and> (EndOfStream = EndOfStream)
         = list_all (\<lambda>f. infer_ret f = 0) (acquired_frames example_env)
     \<and> count_list (fst (run_loop example_names example_env)) CapGrab
         = length (grabbed_frames example_env) + (if EndOfStream = EndOfStream then 1 else 0)"
    by (rule frame_count_follows_acquisitions [OF h]) simp
  note c' = c [unfolded simp_thms if_True]
  note c1 = c' [THEN conjunct1]
  note c2 = c' [THEN conjunct2, THEN conjunct1]
  have c3: "count_list (fst (run_loop example_names example_env)) CapGrab = 3"
    using c' [THEN conjunct2, THEN conjunct2, THEN conjunct2] n by simp
  have u: "EndOfStream \<noteq> UndefinedBehaviour" by simp
  from h u c1 c2 c3 show ?thesis by (intro conjI)
qed

text \<open>
  C4. When the writer does not open, and every frame the source delivers is inferred
  successfully, the run prints the warning once, acquires, infers and reports every frame,
  writes no frame, and returns 0.
\<close>

theorem writer_failure_is_not_fatal:
  assumes "argv e = [prog, model_path, video_source]" and "init_ret e = 0" and "cap_opened e"
    and "\<not> writer_opened e"
    and "\<forall>f \<in> set (acquired_frames e). infer_ret f = 0"
    and "main_model nm e = (tr, Some code)"
  shows "code = 0
     \<and> count_list (stdout_of tr) writer_warning_line = 1
     \<and> count_list tr CapGrab = length (acquired_frames e) + 1
     \<and> count_list tr Inference = length (acquired_frames e)
     \<and> stdout_of tr =
         writer_warning_line
         # concat (map (\<lambda>(i, f). stdout_of (report_frame nm (int i) (od_results f)))
                     (enumerate 1 (acquired_frames e)))
         @ [end_of_video_line (int (length (acquired_frames e)))]
     \<and> count_list tr WriterWrite = 0"
proof -
  let ?F = "acquired_frames e"
  let ?G = "\<lambda>(i, f). CapGrab # fst (loop_body nm e (int i) f)"
  let ?L = "enumerate 1 ?F"
  let ?fps = "if cap_fps e \<le> 0 then 30 else cap_fps e"
  let ?t2 = "[InitPostProcess, InitModel model_path, open_capture video_source,
              WriterOpen ?fps (frame_width e) (frame_height e), Stdout writer_warning_line]"
  obtain tl ex cnt where rl: "run_loop nm e = (tl, ex, cnt)"
    by (cases "run_loop nm e") auto
  have m: "main_model nm e =
      (case ex of UndefinedBehaviour \<Rightarrow> (?t2 @ tl, None)
       | _ \<Rightarrow> (?t2 @ tl @ [ReleaseModel, DeinitPostProcess, CapRelease], Some 0))"
    by (simp add: main_model_def assms(1-4) rl Let_def split: loop_exit.splits)
  have ex: "ex \<noteq> UndefinedBehaviour" using assms(6) m by (cases ex) simp_all
  then have tr: "tr = ?t2 @ tl @ [ReleaseModel, DeinitPostProcess, CapRelease]"
    and code: "code = 0"
    using assms(6) m by (cases ex; simp)+
  have sl: "stream_loop nm e (int 0) (stream e) = (tl, ex, cnt)"
    using rl by (simp add: run_loop_def)
  have "\<forall>f \<in> set (takeWhile (\<lambda>f. \<not> frame_empty f) (stream e)). infer_ret f = 0"
    using assms(5) by (simp add: acquired_frames_def)
  from stream_loop_normal [OF this sl ex]
  have cnt: "cnt = int (length ?F)"
    and tl: "tl = concat (map ?G ?L) @ [CapGrab, Stdout (end_of_video_line cnt)]"
    by (simp_all add: acquired_frames_def)
  have inf: "infer_ret (snd p) = 0" if "p \<in> set ?L" for p
    using assms(5) enumerate_snd_mem [OF that] by simp
  have len: "length ?L = length ?F" by simp
  have grab: "count_list (concat (map ?G ?L)) CapGrab = length ?F"
  proof -
    have "\<forall>p \<in> set ?L. count_list (?G p) CapGrab = 1"
      by (auto simp add: loop_body_counts)
    from count_list_concat_map [OF this] show ?thesis by simp
  qed
  have infer: "count_list (concat (map ?G ?L)) Inference = length ?F"
  proof -
    have "\<forall>p \<in> set ?L. count_list (?G p) Inference = 1"
      by (auto simp add: loop_body_one_inference)
    from count_list_concat_map [OF this] show ?thesis by simp
  qed
  have wrt: "count_list (concat (map ?G ?L)) WriterWrite = 0"
  proof -
    have "\<forall>p \<in> set ?L. count_list (?G p) WriterWrite = 0"
      using assms(4) by (auto simp add: loop_body_counts)
    from count_list_concat_map [OF this] show ?thesis by simp
  qed
  have out: "stdout_of (concat (map ?G ?L))
      = concat (map (\<lambda>(i, f). stdout_of (report_frame nm (int i) (od_results f))) ?L)"
  proof -
    have "map (\<lambda>p. stdout_of (?G p)) ?L
        = map (\<lambda>(i, f). stdout_of (report_frame nm (int i) (od_results f))) ?L"
      using inf by (intro map_cong) (auto simp add: loop_body_stdout)
    then show ?thesis by (simp only: stdout_of_concat_map)
  qed
  note oc = open_capture_trace [of video_source]
  have so: "stdout_of tr = writer_warning_line
         # concat (map (\<lambda>(i, f). stdout_of (report_frame nm (int i) (od_results f))) ?L)
         @ [end_of_video_line (int (length ?F))]"
    using oc(1) out by (simp add: tr tl cnt)
  have "writer_warning_line
      \<notin> set (concat (map (\<lambda>(i, f). stdout_of (report_frame nm (int i) (od_results f))) ?L))"
    by (auto simp add: warning_not_reported)
  then have "count_list (concat (map (\<lambda>(i, f). stdout_of (report_frame nm (int i) (od_results f))) ?L))
      writer_warning_line = 0"
    by (simp only: count_list_0_iff not_False_eq_True)
  then have warn: "count_list (stdout_of tr) writer_warning_line = 1"
    by (simp add: so warning_not_end)
  have g: "count_list tr CapGrab = length ?F + 1"
    using grab by (simp add: tr tl oc(2))
  have i: "count_list tr Inference = length ?F"
    using infer by (simp add: tr tl oc(3))
  have w: "count_list tr WriterWrite = 0"
    using wrt by (simp add: tr tl oc(4))
  from code warn g i so w show ?thesis by simp
qed

theorem writer_failure_is_not_fatal_witness:
  "argv example_no_writer_env = [''video'', ''yolov8.rknn'', ''in.mp4'']
   \<and> init_ret example_no_writer_env = 0 \<and> cap_opened example_no_writer_env
   \<and> \<not> writer_opened example_no_writer_env
   \<and> list_all (\<lambda>f. infer_ret f = 0) (acquired_frames example_no_writer_env)
   \<and> snd (main_model example_names example_no_writer_env) = Some 0
   \<and> stdout_of (fst (main_model example_names example_no_writer_env))
       = [''Warning: VideoWriter failed to open, will not save video.'' @ newline,
          ''Frame 1 detections (1 objects):'' @ newline,
          ''  person @ (100 100 200 200) 0.875'' @ newline,
          ''Frame 2 detections (0 objects):'' @ newline,
          ''  no objects detected'' @ newline,
          ''End of video. Total processed frames: 2'' @ newline]
   \<and> count_list (fst (main_model example_names example_no_writer_env)) CapGrab = 3
   \<and> count_list (fst (main_model example_names example_no_writer_env)) Inference = 2
   \<and> count_list (fst (main_model example_names example_no_writer_env)) WriterWrite = 0"
proof -
  have h: "argv example_no_writer_env = [''video'', ''yolov8.rknn'', ''in.mp4'']"
    "init_ret example_no_writer_env = 0" "cap_opened example_no_writer_env"
    "\<not> writer_opened example_no_writer_env"
    by (simp_all add: example_no_writer_env_def example_env_def)
  have a: "list_all (\<lambda>f. infer_ret f = 0) (acquired_frames example_no_writer_env)"
    by code_simp
  then have a': "\<forall>f \<in> set (acquired_frames example_no_writer_env). infer_ret f = 0"
    by (simp only: list_all_iff)
  have m: "main_model example_names example_no_writer_env
      = (fst (main_model example_names example_no_writer_env), Some 0)"
    by code_simp
  have n: "length (acquired_frames example_no_writer_env) = 2"
    by code_simp
  have l: "writer_warning_line
      # concat (map (\<lambda>(i, f). stdout_of (report_frame example_names (int i) (od_results f)))
                  (enumerate 1 (acquired_frames example_no_writer_env)))
      @ [end_of_video_line (int (length (acquired_frames example_no_writer_env)))]
      = [''Warning: VideoWriter failed to open, will not save video.'' @ newline,
          ''Frame 1 detections (1 objects):'' @ newline,
          ''  person @ (100 100 200 200) 0.875'' @ newline,
          ''Frame 2 detections (0 objects):'' @ newline,
          ''  no objects detected'' @ newline,
          ''End of video. Total processed frames: 2'' @ newline]"
    by code_simp
  let ?M = "main_model example_names example_no_writer_env"
  have c: "count_list (fst ?M) CapGrab = length (acquired_frames example_no_writer_env) + 1
      \<and> count_list (fst ?M) Inference = length (acquired_frames example_no_writer_env)
      \<and> stdout_of (fst ?M) = writer_warning_line
           # concat (map (\<lambda>(i, f). stdout_of (report_frame example_names (int i) (od_results f)))
                  (enumerate 1 (acquired_frames example_no_writer_env)))
           @ [end_of_video_line (int (length (acquired_frames example_no_writer_env)))]
      \<and> count_list (fst ?M) WriterWrite = 0"
    using writer_failure_is_not_fatal [OF h a' m] by blast
  have r: "snd ?M = Some 0" using m by (metis snd_conv)
  have s: "stdout_of (fst ?M)
       = [''Warning: VideoWriter failed to open, will not save video.'' @ newline,
          ''Frame 1 detections (1 objects):'' @ newline,
          ''  person @ (100 100 200 200) 0.875'' @ newline,
          ''Frame 2 detections (0 objects):'' @ newline,
          ''  no objects detected'' @ newline,
          ''End of video. Total processed frames: 2'' @ newline]"
    using c l by (simp only:)
  have g: "count_list (fst ?M) CapGrab = 3" "count_list (fst ?M) Inference = 2"
    "count_list (fst ?M) WriterWrite = 0"
    using c n by simp_all
  from h a r s g show ?thesis by (intro conjI)
qed

text \<open>
  C1. The detector fails on the first of two frames: the second frame is not acquired, the
  writer, the model, the post-processing tables and the capture are released, and \<^verbatim>\<open>main\<close>
  returns 0.
\<close>

theorem inference_failure_exit_status:
  "main_model example_names example_failing_env =
     ([InitPostProcess, InitModel ''yolov8.rknn'', CapOpenFile ''in.mp4'',
       WriterOpen 25 1920 1080,
       Stdout (''Saving inference result to output.mp4 (FPS: 25.0, Size: 1920x1080)'' @ newline),
       CapGrab, Clone, Resize 640 640, CvtColor, Inference,
       Stdout (''inference failed on frame 1! ret=-1'' @ newline),
       WriterRelease, Stdout (''Video saved successfully: output.mp4'' @ newline),
       ReleaseModel, DeinitPostProcess, CapRelease],
      Some 0)"
  by code_simp

subsection \<open>Runs without undefined behaviour\<close>

lemma rnd32_nonneg: "0 \<le> x \<Longrightarrow> 0 \<le> rnd32 x"
  using rnd32_mono [of 0 x] by simp

lemma rnd32_le_quarter_more:
  assumes "0 \<le> x"
  shows "rnd32 x \<le> 5 / 4 * x"
proof -
  have "\<bar>rnd32 x - x\<bar> \<le> \<bar>x\<bar> / 2 ^ 24" by (rule rnd32_err)
  then have "rnd32 x - x \<le> \<bar>x\<bar> / 2 ^ 24" by (rule abs_le_D1)
  then have "rnd32 x \<le> x + x / 2 ^ 24" using assms by simp
  also have "\<dots> \<le> 5 / 4 * x" using assms by simp
  finally show ?thesis .
qed

text \<open>
  The conversions are defined for every edge inside the model input when the frame is at most
  \<open>2 ^ 30\<close> pixels wide: the undefined case does not arise for a detector that keeps its boxes
  inside its input.
\<close>

lemma scale_edge_defined:
  assumes "0 \<le> edge" and "edge \<le> model_dim" and "1 \<le> model_dim"
    and "1 \<le> frame_dim" and "frame_dim \<le> 2 ^ 30"
  shows "\<exists>t. scale_edge edge (frame_scale frame_dim model_dim) = Some t"
proof -
  define M where "M = i2f model_dim"
  define F where "F = i2f frame_dim"
  define s where "s = rnd32 (F / M)"
  define a where "a = i2f edge"
  define R where "R = fmul a s"
  have Mpos: "0 < M" using assms(3) by (simp add: M_def i2f_pos)
  have fs: "frame_scale frame_dim model_dim = Some s"
    using Mpos by (simp add: frame_scale_def fdiv_def s_def F_def M_def)
  have fr: "(of_int frame_dim :: rat) \<le> 2 ^ 30"
  proof -
    have "(of_int frame_dim :: rat) \<le> of_int (2 ^ 30)" using assms(5) by (simp only: of_int_le_iff)
    then show ?thesis by simp
  qed
  have F0: "0 \<le> F" using assms(4) by (simp add: F_def i2f_def rnd32_nonneg)
  have "F \<le> 5 / 4 * of_int frame_dim"
    using assms(4) unfolding F_def i2f_def by (intro rnd32_le_quarter_more) simp
  then have Fb: "F \<le> 5 / 4 * 2 ^ 30" using fr by simp
  have q0: "0 \<le> F / M" using F0 Mpos by simp
  have s0: "0 \<le> s" using q0 by (simp add: s_def rnd32_nonneg)
  have sb: "s \<le> 5 / 4 * (F / M)" unfolding s_def using q0 by (rule rnd32_le_quarter_more)
  have a0: "0 \<le> a" using assms(1) by (simp add: a_def i2f_def rnd32_nonneg)
  have aM: "a \<le> M" using assms(2) by (simp add: a_def M_def i2f_mono)
  have "a * s \<le> M * s" using aM s0 by (rule mult_right_mono)
  also have "\<dots> \<le> M * (5 / 4 * (F / M))" using sb Mpos by (intro mult_left_mono) simp_all
  also have "\<dots> = 5 / 4 * F" using Mpos by simp
  finally have Pb: "a * s \<le> 5 / 4 * F" .
  have P0: "0 \<le> a * s" using a0 s0 by simp
  have R0: "0 \<le> R" using P0 by (simp add: R_def fmul_def rnd32_nonneg)
  have "R \<le> 5 / 4 * (a * s)" unfolding R_def fmul_def using P0 by (rule rnd32_le_quarter_more)
  also have "\<dots> \<le> 5 / 4 * (5 / 4 * F)" using Pb by simp
  also have "\<dots> \<le> 5 / 4 * (5 / 4 * (5 / 4 * 2 ^ 30))" using Fb by simp
  also have "\<dots> < 2 ^ 31" by simp
  finally have Rb: "R < of_int (2 ^ 31)" by simp
  have t0: "0 \<le> trunc R" using R0 by (simp add: trunc_def)
  have "(of_int (trunc R) :: rat) \<le> R" using R0 by (simp add: trunc_def)
  then have "of_int (trunc R) < (of_int (2 ^ 31) :: rat)" using Rb by (rule le_less_trans)
  then have "trunc R < 2 ^ 31" by (simp only: of_int_less_iff)
  then have "f2i R = Some (trunc R)" using t0 by (intro f2i_in_range) simp_all
  then show ?thesis by (simp add: fs scale_edge_def R_def a_def)
qed

lemma map_box_defined:
  assumes "0 \<le> left b" "left b \<le> mw" "0 \<le> right b" "right b \<le> mw"
    and "0 \<le> top' b" "top' b \<le> mh" "0 \<le> bottom b" "bottom b \<le> mh"
    and "1 \<le> mw" "1 \<le> mh" "1 \<le> fcols" "fcols \<le> 2 ^ 30" "1 \<le> frows" "frows \<le> 2 ^ 30"
  shows "\<exists>r. map_box (frame_scale fcols mw) (frame_scale frows mh) fcols frows b = Some r"
proof -
  obtain x1 where "scale_edge (left b) (frame_scale fcols mw) = Some x1"
    using scale_edge_defined [OF assms(1,2,9,11,12)] by blast
  moreover obtain y1 where "scale_edge (top' b) (frame_scale frows mh) = Some y1"
    using scale_edge_defined [OF assms(5,6,10,13,14)] by blast
  moreover obtain x2 where "scale_edge (right b) (frame_scale fcols mw) = Some x2"
    using scale_edge_defined [OF assms(3,4,9,11,12)] by blast
  moreover obtain y2 where "scale_edge (bottom b) (frame_scale frows mh) = Some y2"
    using scale_edge_defined [OF assms(7,8,10,13,14)] by blast
  ultimately show ?thesis by (simp add: map_box_def scale_box_def clamp_box_def)
qed

lemma draw_detections_defined:
  assumes "list_all (\<lambda>d. box_in_model_input e (box d)) ds"
    and "1 \<le> model_width e" and "1 \<le> model_height e"
    and "1 \<le> c" and "c \<le> 2 ^ 30" and "1 \<le> r" and "r \<le> 2 ^ 30"
  shows "snd (draw_detections nm (frame_scale c (model_width e)) (frame_scale r (model_height e))
            c r ds)"
  using assms(1)
proof (induction ds)
  case Nil
  then show ?case by simp
next
  case (Cons d ds)
  then have b: "box_in_model_input e (box d)" by simp
  obtain x1 y1 x2 y2 where
    "map_box (frame_scale c (model_width e)) (frame_scale r (model_height e)) c r (box d)
       = Some (x1, y1, x2, y2)"
    using map_box_defined [of "box d" "model_width e" "model_height e" c r] b assms(2-7)
    by (auto simp add: box_in_model_input_def)
  then show ?case using Cons by (auto split: prod.splits)
qed

lemma loop_body_defined:
  assumes "frame_regular e f" and "\<not> frame_empty f"
    and "1 \<le> model_width e" and "1 \<le> model_height e"
  shows "snd (loop_body nm e n f) \<noteq> Undefined"
proof (cases "infer_ret f = 0")
  case False
  then show ?thesis by (simp add: loop_body_failed)
next
  case True
  have "snd (draw_detections nm (frame_scale (cols f) (model_width e))
          (frame_scale (rows f) (model_height e)) (cols f) (rows f) (od_results f))"
    using assms by (intro draw_detections_defined) (simp_all add: frame_regular_def frame_empty_def)
  then have "snd (overlay_frame nm e f)"
    by (auto simp add: overlay_frame_def split: prod.splits)
  then show ?thesis by (simp add: loop_body_inferred [OF True])
qed

lemma stream_loop_defined:
  assumes "list_all (frame_regular e) fs" and "1 \<le> model_width e" and "1 \<le> model_height e"
    and "int m + int (length fs) < 2 ^ 63"
  shows "fst (snd (stream_loop nm e (int m) fs)) \<noteq> UndefinedBehaviour"
  using assms(1,4)
proof (induction fs arbitrary: m)
  case Nil
  then show ?case by simp
next
  case (Cons f fs)
  show ?case
  proof (cases "frame_empty f")
    case True
    then show ?thesis by (simp add: stream_loop_end)
  next
    case False
    have no: "int m \<noteq> 2 ^ 63 - 1" using Cons.prems(2) by simp
    have reg: "frame_regular e f" "list_all (frame_regular e) fs" using Cons.prems(1) by simp_all
    have len: "int (Suc m) + int (length fs) < 2 ^ 63" using Cons.prems(2) by simp
    obtain es res where lb: "loop_body nm e (int (Suc m)) f = (es, res)"
      by (cases "loop_body nm e (int (Suc m)) f")
    have "res \<noteq> Undefined"
      using loop_body_defined [OF reg(1) False assms(2,3), of nm "int (Suc m)"] lb by simp
    then show ?thesis
      using Cons.IH [OF reg(2) len]
      by (cases res) (simp_all only: stream_loop_step [OF False no] lb prod.case
          iter_result.case fst_conv snd_conv loop_exit.distinct not_False_eq_True
          split: prod.splits, auto split: prod.splits)
  qed
qed

text \<open>
  On such inputs \<^verbatim>\<open>main\<close> returns: with a non-empty \<^verbatim>\<open>argv\<close>, a positive model input size,
  regular frames and fewer than \<open>2 ^ 63\<close> of them, no undefined behaviour is met.
\<close>

lemma main_model_defined:
  assumes "argv e \<noteq> []" and "1 \<le> model_width e" and "1 \<le> model_height e"
    and "list_all (frame_regular e) (stream e)" and "int (length (stream e)) < 2 ^ 63"
  shows "\<exists>code. snd (main_model nm e) = Some code"
proof -
  have "fst (snd (stream_loop nm e (int 0) (stream e))) \<noteq> UndefinedBehaviour"
    using assms(4,2,3) by (rule stream_loop_defined) (use assms(5) in simp)
  then have "fst (snd (run_loop nm e)) \<noteq> UndefinedBehaviour" by (simp add: run_loop_def)
  then show ?thesis
    using assms(1)
    by (cases "run_loop nm e")
      (auto simp add: main_model_def Let_def split: list.splits loop_exit.splits)
qed

text \<open>Once the capture is open, every defined run returns 0, however the loop ended.\<close>

lemma main_model_returns_zero_after_open:
  assumes "argv e = [prog, model_path, video_source]" and "init_ret e = 0" and "cap_opened e"
    and "main_model nm e = (tr, Some code)"
  shows "code = 0"
  using assms(4)
  by (cases "run_loop nm e")
    (auto simp add: main_model_def assms(1-3) Let_def split: loop_exit.splits)
end
